theory Spec2Isabelle
  imports Complex_Main "HOL-Library.Sublist" "HOL-Library.Char_ord"
begin

section \<open>Strings of the host language\<close>

text \<open>
  A string of the program is a sequence of UTF-16 code units: \<^const>\<open>length\<close> is its
  \<^verbatim>\<open>.length\<close> and \<open>s ! i\<close> is \<^verbatim>\<open>s[i]\<close>. The model takes the code units
  U+0000 .. U+00FF, which \<open>Latin1\<close> holds as a \<^typ>\<open>char\<close> each, and two more:
  U+0130, LATIN CAPITAL LETTER I WITH DOT ABOVE, the one code unit whose lower-casing
  is longer than itself, and U+0307, COMBINING DOT ABOVE, the second code unit of that
  lower-casing. On these the library functions below are the ones ECMAScript defines.
\<close>

datatype codeunit = Latin1 char | U0130 | U0307

type_synonym jsstring = "codeunit list"

text \<open>A string literal of the program, of code units below U+0100.\<close>

definition js :: "string \<Rightarrow> jsstring" where
  "js s = map Latin1 s"

text \<open>
  The white space of \<^verbatim>\<open>\s\<close> and of \<^verbatim>\<open>trim\<close>: TAB, LF, VT, FF, CR, SPACE and
  NBSP.
\<close>

definition is_space :: "codeunit \<Rightarrow> bool" where
  "is_space u \<longleftrightarrow>
     u = Latin1 (CHR 0x09) \<or> u = Latin1 (CHR 0x0A) \<or> u = Latin1 (CHR 0x0B) \<or>
     u = Latin1 (CHR 0x0C) \<or> u = Latin1 (CHR 0x0D) \<or> u = Latin1 (CHR 0x20) \<or>
     u = Latin1 (CHR 0xA0)"

text \<open>
  A character class \<^verbatim>\<open>[lo-hi]\<close> of a regular expression, and the classes
  \<^verbatim>\<open>[a-z]\<close>, \<^verbatim>\<open>[A-Z]\<close>, \<^verbatim>\<open>[A-Za-z]\<close> and \<^verbatim>\<open>[0-9]\<close>.
\<close>

definition in_class :: "char \<Rightarrow> char \<Rightarrow> codeunit \<Rightarrow> bool" where
  "in_class lo hi u = (case u of Latin1 c \<Rightarrow> lo \<le> c \<and> c \<le> hi | _ \<Rightarrow> False)"

definition is_lower_az :: "codeunit \<Rightarrow> bool" where
  "is_lower_az u \<longleftrightarrow> in_class CHR ''a'' CHR ''z'' u"

definition is_upper_AZ :: "codeunit \<Rightarrow> bool" where
  "is_upper_AZ u \<longleftrightarrow> in_class CHR ''A'' CHR ''Z'' u"

definition is_letter :: "codeunit \<Rightarrow> bool" where
  "is_letter u \<longleftrightarrow> is_upper_AZ u \<or> is_lower_az u"

definition is_digit :: "codeunit \<Rightarrow> bool" where
  "is_digit u \<longleftrightarrow> in_class CHR ''0'' CHR ''9'' u"

text \<open>
  \<^verbatim>\<open>toLowerCase\<close>: below U+0100 the letters A-Z and the capital letters
  U+00C0 .. U+00DE (U+00D7, the multiplication sign, apart) go to the code unit 32 above,
  and every other code unit stays; U+0130 goes to the two code units U+0069 U+0307.
\<close>

definition has_lowercase_mapping :: "char \<Rightarrow> bool" where
  "has_lowercase_mapping c \<longleftrightarrow>
     (CHR ''A'' \<le> c \<and> c \<le> CHR ''Z'') \<or> (CHR 0xC0 \<le> c \<and> c \<le> CHR 0xDE \<and> c \<noteq> CHR 0xD7)"

fun toLowerCase_unit :: "codeunit \<Rightarrow> jsstring" where
  "toLowerCase_unit (Latin1 c) =
     [Latin1 (if has_lowercase_mapping c then char_of (of_char c + (32::nat)) else c)]"
| "toLowerCase_unit U0130 = [Latin1 CHR ''i'', U0307]"
| "toLowerCase_unit U0307 = [U0307]"

definition toLowerCase :: "jsstring \<Rightarrow> jsstring" where
  "toLowerCase s = concat (map toLowerCase_unit s)"

definition trim :: "jsstring \<Rightarrow> jsstring" where
  "trim s = rev (dropWhile is_space (rev (dropWhile is_space s)))"

text \<open>\<^verbatim>\<open>s.endsWith(t)\<close>: the last \<open>length t\<close> code units of \<open>s\<close> are \<open>t\<close>.\<close>

definition endsWith :: "jsstring \<Rightarrow> jsstring \<Rightarrow> bool" where
  "endsWith s t \<longleftrightarrow> length t \<le> length s \<and> drop (length s - length t) s = t"

text \<open>
  \<^verbatim>\<open>s.indexOf(t)\<close>: the positions are tried from the left, the first one where \<open>t\<close>
  starts is returned, and \<open>-1\<close> when there is none.
\<close>

fun indexOf_from :: "nat \<Rightarrow> jsstring \<Rightarrow> jsstring \<Rightarrow> int" where
  "indexOf_from k [] t = (if t = [] then int k else - 1)"
| "indexOf_from k (c # cs) t =
     (if prefix t (c # cs) then int k else indexOf_from (Suc k) cs t)"

definition indexOf :: "jsstring \<Rightarrow> jsstring \<Rightarrow> int" where
  "indexOf s t = indexOf_from 0 s t"

text \<open>\<^verbatim>\<open>s.split(sep)\<close> for a separator of one code unit, and \<^verbatim>\<open>parts.join(sep)\<close>.\<close>

fun split_on :: "codeunit \<Rightarrow> jsstring \<Rightarrow> jsstring list" where
  "split_on sep [] = [[]]"
| "split_on sep (c # cs) =
     (if c = sep then [] # split_on sep cs
      else (case split_on sep cs of
              [] \<Rightarrow> [[c]]
            | w # ws \<Rightarrow> (c # w) # ws))"

fun join :: "jsstring \<Rightarrow> jsstring list \<Rightarrow> jsstring" where
  "join sep [] = []"
| "join sep [w] = w"
| "join sep (w # v # ws) = w @ sep @ join sep (v # ws)"

subsection \<open>Splitting at a regular expression\<close>

text \<open>
  \<^verbatim>\<open>s.split(re)\<close> as ECMAScript defines it. A matcher stands for the regular
  expression: \<open>m s q\<close> is the attempt to match at index \<open>q\<close> of \<open>s\<close>, the length of the
  match when it succeeds. With \<open>p\<close> the end of the last separator and \<open>q\<close> the index
  tried, a match that ends at \<open>p\<close> is skipped, any other one closes the piece from
  \<open>p\<close> to \<open>q\<close>; the rest of the string is the last piece. The empty string gives no
  piece when the expression matches it and itself as the one piece otherwise.
\<close>

type_synonym matcher = "jsstring \<Rightarrow> nat \<Rightarrow> nat option"

function split_loop :: "matcher \<Rightarrow> jsstring \<Rightarrow> nat \<Rightarrow> nat \<Rightarrow> jsstring list" where
  "split_loop m s p q =
     (if q < length s then
        (case m s q of
           None \<Rightarrow> split_loop m s p (Suc q)
         | Some n \<Rightarrow>
             (if min (q + n) (length s) = p then split_loop m s p (Suc q)
              else take (q - p) (drop p s) #
                   split_loop m s (min (q + n) (length s)) (min (q + n) (length s))))
      else [drop p s])"
  by pat_completeness auto
termination
  by (relation "measure (\<lambda>(m, s, p, q). 2 * (length s - q) + (if p = q then 0 else 1))")
     (auto split: if_splits)

definition regex_split :: "matcher \<Rightarrow> jsstring \<Rightarrow> jsstring list" where
  "regex_split m s =
     (if s = [] then (case m s 0 of None \<Rightarrow> [s] | Some n \<Rightarrow> [])
      else split_loop m s 0 0)"

text \<open>
  \<^verbatim>\<open>/[\s\-_.]+/\<close>: the longest run of delimiters that starts at \<open>q\<close>, which has to
  hold one code unit at least.
\<close>

definition is_delimiter :: "codeunit \<Rightarrow> bool" where
  "is_delimiter u \<longleftrightarrow>
     is_space u \<or> u = Latin1 CHR ''-'' \<or> u = Latin1 CHR ''_'' \<or> u = Latin1 CHR ''.''"

definition delimiterPattern :: matcher where
  "delimiterPattern s q =
     (let n = length (takeWhile is_delimiter (drop q s))
      in if n = 0 then None else Some n)"

text \<open>
  \<^verbatim>\<open>/(?<=[a-z])(?=[A-Z])|(?<=[A-Za-z])(?=[0-9])|(?<=[0-9])(?=[A-Za-z])/\<close>: the
  three alternatives look at the code unit before \<open>q\<close> and at the one at \<open>q\<close>, and
  match the empty string between them.
\<close>

definition camel_boundary :: "codeunit \<Rightarrow> codeunit \<Rightarrow> bool" where
  "camel_boundary a b \<longleftrightarrow>
     (is_lower_az a \<and> is_upper_AZ b) \<or> (is_letter a \<and> is_digit b) \<or>
     (is_digit a \<and> is_letter b)"

definition camelPattern :: matcher where
  "camelPattern s q =
     (if 0 < q \<and> q < length s \<and> camel_boundary (s ! (q - 1)) (s ! q) then Some 0
      else None)"

section \<open>The acronym searcher\<close>

datatype error = TypeError

record AcronymSearcher =
  query :: jsstring

text \<open>
  The constructor: \<^verbatim>\<open>(query ?? '').trim().toLowerCase()\<close>; \<open>None\<close> is a null or
  undefined argument.
\<close>

definition new_AcronymSearcher :: "jsstring option \<Rightarrow> AcronymSearcher" where
  "new_AcronymSearcher q =
     \<lparr>query = toLowerCase (trim (case q of None \<Rightarrow> [] | Some s \<Rightarrow> s))\<rparr>"

definition hasSearchTerm :: "AcronymSearcher \<Rightarrow> bool" where
  "hasSearchTerm this \<longleftrightarrow> length (query this) \<noteq> 0"

subsection \<open>Word extraction\<close>

definition extractWords :: "jsstring option \<Rightarrow> jsstring list" where
  "extractWords filename =
     (case filename of
        None \<Rightarrow> []
      | Some f \<Rightarrow>
          if f = [] then []
          else
            let parts = split_on (Latin1 CHR ''.'') f;
                extension = (if length parts > 1 then last parts else []);
                parts = (if length parts > 1 then butlast parts else parts);
                nameWithoutExt = join (js ''.'') parts;
                segments = filter (\<lambda>w. w \<noteq> []) (regex_split delimiterPattern nameWithoutExt);
                words = concat (map (\<lambda>segment.
                          filter (\<lambda>w. w \<noteq> []) (regex_split camelPattern segment)) segments);
                words = (if extension \<noteq> [] then words @ [extension] else words)
            in filter (\<lambda>word. length word > 0) words)"

text \<open>
  \<^verbatim>\<open>words.map((word) => word[0].toLowerCase()).join('')\<close>: \<^verbatim>\<open>word[0]\<close> of an
  empty word is undefined, and the call of \<^verbatim>\<open>toLowerCase\<close> on it throws.
\<close>

fun createSearchableString :: "jsstring list \<Rightarrow> error + jsstring" where
  "createSearchableString [] = Inr []"
| "createSearchableString (word # words) =
     (case word of
        [] \<Rightarrow> Inl TypeError
      | c # _ \<Rightarrow>
          (case createSearchableString words of
             Inl e \<Rightarrow> Inl e
           | Inr s \<Rightarrow> Inr (toLowerCase [c] @ s)))"

subsection \<open>Scoring\<close>

text \<open>
  The source computes the score in IEEE doubles and rounds after every operation. The
  model performs the same operations in the same order over the rationals and does not
  round: the constants \<open>0.02\<close>, \<open>0.1\<close> and \<open>0.5\<close> are the decimal fractions
  written, and a score of the model is the exact value of the sum, which the double of
  the source matches up to its rounding.
\<close>

definition calculateScore ::
  "AcronymSearcher \<Rightarrow> jsstring \<Rightarrow> int \<Rightarrow> jsstring \<Rightarrow> bool \<Rightarrow> rat" where
  "calculateScore this searchableString matchIndex filename isBasename =
     (let score = 1;
          score = (if matchIndex = 0 then score + 3 else score);
          score = (if length (query this) > 1 then score + 2 else score);
          score = (if isBasename then score + 2 else score);
          queryLength = length (query this);
          totalLetters = length searchableString;
          density = of_nat queryLength / of_nat (max totalLetters 1);
          score = score + density * 2;
          score = (if queryLength = totalLetters then score + 2 else score);
          lengthPenalty = of_int (max 0 (int (length filename) - 15)) * 0.02;
          score = score - lengthPenalty;
          score = (if endsWith (toLowerCase filename) (js ''.md'') then score + 0.5 else score);
          positionPenalty = of_int matchIndex * 0.1;
          score = score - positionPenalty
      in max 0.1 score)"

subsection \<open>Searching one text\<close>

record SearchResult =
  score :: rat
  matches :: "(nat \<times> nat) list"

record AcronymSearchResult =
  match :: "SearchResult option"
  score :: rat

text \<open>
  The loop that collects the highlighted positions, with its variables \<open>i\<close>,
  \<open>charIndex\<close>, \<open>queryIndex\<close> and \<open>matches\<close> (here \<open>spans\<close>) as arguments.
\<close>

function span_loop ::
  "jsstring list \<Rightarrow> int \<Rightarrow> nat \<Rightarrow> nat \<Rightarrow> nat \<Rightarrow> nat \<Rightarrow> (nat \<times> nat) list \<Rightarrow> (nat \<times> nat) list" where
  "span_loop words matchIndex queryLength i charIndex queryIndex spans =
     (if i < length words \<and> queryIndex < queryLength then
        let word = words ! i;
            hit = (int i \<ge> matchIndex \<and> int i < matchIndex + int queryLength);
            spans = (if hit then spans @ [(charIndex, charIndex + 1)] else spans);
            queryIndex = (if hit then queryIndex + 1 else queryIndex);
            charIndex = charIndex + length word;
            charIndex = (if int i < int (length words) - 1 then charIndex + 1 else charIndex)
        in span_loop words matchIndex queryLength (i + 1) charIndex queryIndex spans
      else spans)"
  by pat_completeness auto
termination
  by (relation "measure (\<lambda>(words, matchIndex, queryLength, i, rest). length words - i)") auto

text \<open>
  \<open>None\<close> is a null or undefined text; it and the empty string are the falsy values
  of the guard.
\<close>

definition searchText ::
  "AcronymSearcher \<Rightarrow> jsstring option \<Rightarrow> bool \<Rightarrow> error + AcronymSearchResult" where
  "searchText this text isBasename =
     (case text of
        None \<Rightarrow> Inr \<lparr>match = None, score = 0\<rparr>
      | Some t \<Rightarrow>
          if query this = [] \<or> t = [] then Inr \<lparr>match = None, score = 0\<rparr>
          else
            let words = extractWords text in
            (case createSearchableString words of
               Inl e \<Rightarrow> Inl e
             | Inr searchableString \<Rightarrow>
                 let matchIndex = indexOf searchableString (query this) in
                 if matchIndex = - 1 then Inr \<lparr>match = None, score = 0\<rparr>
                 else
                   let sc = calculateScore this searchableString matchIndex t isBasename;
                       spans = span_loop words matchIndex (length (query this)) 0 0 0 []
                   in Inr \<lparr>match = Some \<lparr>SearchResult.score = sc, matches = spans\<rparr>,
                           score = sc\<rparr>))"

subsection \<open>The fallback chain\<close>

text \<open>
  The path segments of the caller: the type is declared outside the files at hand, its two
  fields are read here. \<open>None\<close> is a null or undefined field.
\<close>

record PathSegments =
  basename :: "jsstring option"
  path :: "jsstring option"

definition searchWithFallback ::
  "AcronymSearcher \<Rightarrow> jsstring option \<Rightarrow> PathSegments option \<Rightarrow> error + AcronymSearchResult" where
  "searchWithFallback this primaryText pathSegments =
     (case searchText this primaryText True of
        Inl e \<Rightarrow> Inl e
      | Inr result \<Rightarrow>
          (case pathSegments of
             None \<Rightarrow> Inr result
           | Some ps \<Rightarrow>
               if match result = None then
                 (case searchText this (basename ps) True of
                    Inl e \<Rightarrow> Inl e
                  | Inr result \<Rightarrow>
                      if match result = None then searchText this (path ps) False
                      else Inr result)
               else Inr result))"

section \<open>The specification's notions\<close>

text \<open>
  The score as the specification adds it up, from the lengths of the query, of the
  initials index and of the text, the match index, and the two flags.
\<close>

definition spec_score :: "nat \<Rightarrow> nat \<Rightarrow> int \<Rightarrow> nat \<Rightarrow> bool \<Rightarrow> bool \<Rightarrow> rat" where
  "spec_score queryLength indexLength matchIndex textLength isBasenameOrPrimary endsWithMd =
     max 0.1
       (1.0
        + (if matchIndex = 0 then 3.0 else 0)
        + (if queryLength > 1 then 2.0 else 0)
        + (if isBasenameOrPrimary then 2.0 else 0)
        + (of_nat queryLength / of_nat (max indexLength 1)) * 2.0
        + (if queryLength = indexLength then 2.0 else 0)
        - of_int (max 0 (int textLength - 15)) * 0.02
        + (if endsWithMd then 0.5 else 0)
        - of_int matchIndex * 0.1)"

text \<open>
  The segmentation as the specification words it. The extension is what follows the last
  dot and the stem what precedes it, when the text has a dot at all.
\<close>

definition spec_extension :: "jsstring \<Rightarrow> jsstring" where
  "spec_extension t =
     (if Latin1 CHR ''.'' \<in> set t then rev (takeWhile (\<lambda>u. u \<noteq> Latin1 CHR ''.'') (rev t)) else [])"

definition spec_stem :: "jsstring \<Rightarrow> jsstring" where
  "spec_stem t =
     (if Latin1 CHR ''.'' \<in> set t then rev (tl (dropWhile (\<lambda>u. u \<noteq> Latin1 CHR ''.'') (rev t))) else t)"

text \<open>
  The number of a code unit, and the code units from \<open>lo\<close> to \<open>hi\<close>.
\<close>

definition unit_code :: "codeunit \<Rightarrow> nat" where
  "unit_code u = (case u of Latin1 c \<Rightarrow> of_char c | U0130 \<Rightarrow> 0x130 | U0307 \<Rightarrow> 0x307)"

definition code_in :: "nat \<Rightarrow> nat \<Rightarrow> codeunit \<Rightarrow> bool" where
  "code_in lo hi u \<longleftrightarrow> lo \<le> unit_code u \<and> unit_code u \<le> hi"

text \<open>
  The delimiters of the stem: white space (U+0009 .. U+000D, U+0020 and U+00A0 among
  the code units at hand), hyphen, underscore and dot.
\<close>

definition spec_delimiter :: "codeunit \<Rightarrow> bool" where
  "spec_delimiter u \<longleftrightarrow>
     code_in 0x09 0x0D u \<or> unit_code u = 0x20 \<or> unit_code u = 0xA0 \<or> u \<in> set (js ''-_.'')"

text \<open>
  The fragments of the stem: a run of delimiters ends the fragment \<open>cur\<close> read so far,
  and an empty fragment is dropped.
\<close>

fun fragments_by :: "(codeunit \<Rightarrow> bool) \<Rightarrow> jsstring \<Rightarrow> jsstring \<Rightarrow> jsstring list" where
  "fragments_by dl cur [] = (if cur = [] then [] else [cur])"
| "fragments_by dl cur (c # cs) =
     (if dl c then
        (if cur = [] then fragments_by dl [] cs else cur # fragments_by dl [] cs)
      else fragments_by dl (cur @ [c]) cs)"

text \<open>
  The letters and digits of the specification, among the code units at hand: the
  lower-case letters a-z, U+00B5, U+00DF .. U+00F6 and U+00F8 .. U+00FF, the upper-case
  letters A-Z, U+00C0 .. U+00D6, U+00D8 .. U+00DE and U+0130, the two letters without
  case U+00AA and U+00BA, and the digits 0-9.
\<close>

definition is_lowercase_letter :: "codeunit \<Rightarrow> bool" where
  "is_lowercase_letter u \<longleftrightarrow>
     code_in 0x61 0x7A u \<or> unit_code u = 0xB5 \<or> code_in 0xDF 0xF6 u \<or> code_in 0xF8 0xFF u"

definition is_uppercase_letter :: "codeunit \<Rightarrow> bool" where
  "is_uppercase_letter u \<longleftrightarrow>
     code_in 0x41 0x5A u \<or> code_in 0xC0 0xD6 u \<or> code_in 0xD8 0xDE u \<or> unit_code u = 0x130"

definition is_any_letter :: "codeunit \<Rightarrow> bool" where
  "is_any_letter u \<longleftrightarrow>
     is_lowercase_letter u \<or> is_uppercase_letter u \<or> unit_code u = 0xAA \<or> unit_code u = 0xBA"

definition is_decimal_digit :: "codeunit \<Rightarrow> bool" where
  "is_decimal_digit u \<longleftrightarrow> code_in 0x30 0x39 u"

text \<open>
  The boundaries of the specification: lower-case letter to upper-case letter, letter
  to digit, digit to letter.
\<close>

definition spec_boundary :: "codeunit \<Rightarrow> codeunit \<Rightarrow> bool" where
  "spec_boundary a b \<longleftrightarrow>
     (is_lowercase_letter a \<and> is_uppercase_letter b) \<or>
     (is_any_letter a \<and> is_decimal_digit b) \<or>
     (is_decimal_digit a \<and> is_any_letter b)"

text \<open>
  The same boundaries over the ASCII letters and digits only: a-z to A-Z, a letter of
  a-z or A-Z to a digit of 0-9, and such a digit to such a letter.
\<close>

definition ascii_boundary :: "codeunit \<Rightarrow> codeunit \<Rightarrow> bool" where
  "ascii_boundary a b \<longleftrightarrow>
     (code_in 0x61 0x7A a \<and> code_in 0x41 0x5A b) \<or>
     ((code_in 0x41 0x5A a \<or> code_in 0x61 0x7A a) \<and> code_in 0x30 0x39 b) \<or>
     (code_in 0x30 0x39 a \<and> (code_in 0x41 0x5A b \<or> code_in 0x61 0x7A b))"

text \<open>
  The zero-width splits of a fragment: a cut between two neighbours that form a
  boundary; no character is consumed.
\<close>

fun transitions_by :: "(codeunit \<Rightarrow> codeunit \<Rightarrow> bool) \<Rightarrow> jsstring \<Rightarrow> jsstring list" where
  "transitions_by bnd [] = []"
| "transitions_by bnd [c] = [[c]]"
| "transitions_by bnd (c # d # cs) =
     (if bnd c d then [c] # transitions_by bnd (d # cs)
      else (case transitions_by bnd (d # cs) of
              [] \<Rightarrow> [[c]]
            | w # ws \<Rightarrow> (c # w) # ws))"

text \<open>
  The segmentation for given delimiters and boundaries: nothing for the empty text;
  otherwise the fragments of the stem, each cut at its boundaries, then the extension
  when it is not empty, and no empty word.
\<close>

definition segment_by ::
  "(codeunit \<Rightarrow> bool) \<Rightarrow> (codeunit \<Rightarrow> codeunit \<Rightarrow> bool) \<Rightarrow> jsstring \<Rightarrow> jsstring list" where
  "segment_by dl bnd t =
     (if t = [] then []
      else filter (\<lambda>w. w \<noteq> [])
             (concat (map (transitions_by bnd) (fragments_by dl [] (spec_stem t))) @
              (if spec_extension t = [] then [] else [spec_extension t])))"

text \<open>
  The segmentation of the specification, with its letters and digits, and the
  segmentation with the ASCII letters and digits.
\<close>

definition segment :: "jsstring \<Rightarrow> jsstring list" where
  "segment t = segment_by spec_delimiter spec_boundary t"

definition ascii_segment :: "jsstring \<Rightarrow> jsstring list" where
  "ascii_segment t = segment_by spec_delimiter ascii_boundary t"

text \<open>
  The query occurs in the index at position \<open>i\<close>, as a contiguous run.
\<close>

definition occurs_at :: "jsstring \<Rightarrow> jsstring \<Rightarrow> nat \<Rightarrow> bool" where
  "occurs_at q s i \<longleftrightarrow> i + length q \<le> length s \<and> take (length q) (drop i s) = q"

text \<open>
  The running offset of word \<open>j\<close>: the lengths of the words before it, and one
  character for each of the \<open>j\<close> boundaries before it.
\<close>

definition charStart :: "jsstring list \<Rightarrow> nat \<Rightarrow> nat" where
  "charStart words j = sum_list (map length (take j words)) + j"

text \<open>
  An auxiliary notion of the proofs: the characters \<open>pre\<close> put in front of the first
  word of a list of words.
\<close>

definition prepend :: "jsstring \<Rightarrow> jsstring list \<Rightarrow> jsstring list" where
  "prepend pre ws = (case ws of [] \<Rightarrow> [pre] | w # ws' \<Rightarrow> (pre @ w) # ws')"

section \<open>Properties\<close>

declare span_loop.simps [simp del]
declare split_loop.simps [simp del]

subsection \<open>Words, initials and the shape of a result\<close>

lemma js_eq_Nil [simp]: "js s = [] \<longleftrightarrow> s = []"
  by (simp add: js_def)

lemma length_js [simp]: "length (js s) = length s"
  by (simp add: js_def)

lemma extractWords_no_empty: "[] \<notin> set (extractWords tx)"
  by (auto simp: extractWords_def Let_def split: option.splits)

lemma createSearchableString_Inr:
  "[] \<notin> set ws \<Longrightarrow>
     createSearchableString ws = Inr (concat (map (\<lambda>word. toLowerCase [hd word]) ws))"
  by (induction ws) (auto split: list.splits)

lemma createSearchableString_extractWords:
  "createSearchableString (extractWords tx) =
     Inr (concat (map (\<lambda>word. toLowerCase [hd word]) (extractWords tx)))"
  by (rule createSearchableString_Inr) (rule extractWords_no_empty)

lemma searchText_cases:
  obtains (none) "searchText this tx b = Inr \<lparr>match = None, score = 0\<rparr>"
  | (some) t idx where "tx = Some t" "t \<noteq> []" "query this \<noteq> []"
      "createSearchableString (extractWords tx) = Inr idx"
      "indexOf idx (query this) \<noteq> - 1"
      "searchText this tx b =
         Inr \<lparr>match = Some \<lparr>SearchResult.score = calculateScore this idx (indexOf idx (query this)) t b,
                matches = span_loop (extractWords tx) (indexOf idx (query this)) (length (query this)) 0 0 0 []\<rparr>,
              score = calculateScore this idx (indexOf idx (query this)) t b\<rparr>"
proof (cases tx)
  case None
  then show ?thesis using none by (simp add: searchText_def)
next
  case (Some t)
  obtain idx where idx: "createSearchableString (extractWords tx) = Inr idx"
    using createSearchableString_extractWords by blast
  show ?thesis
  proof (cases "query this = [] \<or> t = [] \<or> indexOf idx (query this) = - 1")
    case True
    then show ?thesis using none Some idx by (auto simp: searchText_def Let_def)
  next
    case False
    then show ?thesis using some [of t idx] Some idx by (simp add: searchText_def Let_def)
  qed
qed

lemma searchText_total: "\<exists>r. searchText this tx b = Inr r"
  by (rule searchText_cases [of this tx b]) auto

lemma searchText_consistent:
  "searchText this tx b = Inr r \<Longrightarrow>
     (case match r of None \<Rightarrow> score r = 0 | Some m \<Rightarrow> SearchResult.score m = score r)"
  by (rule searchText_cases [of this tx b]) auto

lemma searchWithFallback_cases:
  "searchWithFallback this primaryText pathSegments = Inr r \<Longrightarrow>
     searchText this primaryText True = Inr r \<or>
     (\<exists>ps. pathSegments = Some ps \<and>
        (searchText this (basename ps) True = Inr r \<or> searchText this (path ps) False = Inr r))"
  by (auto simp: searchWithFallback_def split: sum.splits option.splits if_splits)

text \<open>Evaluating a search step by step at a given text.\<close>

lemma searchText_match_eval:
  assumes "t \<noteq> []" and "query this \<noteq> []"
    and "extractWords (Some t) = ws" and "createSearchableString ws = Inr idx"
    and "indexOf idx (query this) = mi" and "mi \<noteq> - 1"
    and "calculateScore this idx mi t b = sc"
    and "span_loop ws mi (length (query this)) 0 0 0 [] = sp"
  shows "searchText this (Some t) b =
           Inr \<lparr>match = Some \<lparr>SearchResult.score = sc, matches = sp\<rparr>, score = sc\<rparr>"
  using assms by (simp add: searchText_def Let_def)

lemma searchText_absent_eval:
  assumes "extractWords (Some t) = ws" and "createSearchableString ws = Inr idx"
    and "indexOf idx (query this) = - 1"
  shows "searchText this (Some t) b = Inr \<lparr>match = None, score = 0\<rparr>"
  using assms by (simp add: searchText_def Let_def)

lemma query_new_eval:
  "toLowerCase (trim q) = q' \<Longrightarrow> new_AcronymSearcher (Some q) = \<lparr>query = q'\<rparr>"
  by (simp add: new_AcronymSearcher_def)

subsection \<open>The score in closed form\<close>

lemma if_add_rat: "(if c then (x::rat) + k else x) = x + (if c then k else 0)"
  by simp

lemma calculateScore_spec_score:
  "calculateScore this idx mi t b =
     spec_score (length (query this)) (length idx) mi (length t) b (endsWith (toLowerCase t) (js ''.md''))"
  unfolding calculateScore_def spec_score_def
  apply (simp only: Let_def if_add_rat)
  apply (simp split del: if_split cong: if_cong)
  done

lemma calculateScore_floor: "0.1 \<le> calculateScore this idx mi t b"
  unfolding calculateScore_def Let_def by (rule max.cobounded1)

lemma searchText_match_score:
  "searchText this tx b = Inr r \<Longrightarrow> match r \<noteq> None \<Longrightarrow> 0.1 \<le> score r"
proof (rule searchText_cases [of this tx b])
  assume "searchText this tx b = Inr r" "match r \<noteq> None"
    "searchText this tx b = Inr \<lparr>match = None, score = 0\<rparr>"
  then show ?thesis by auto
next
  fix t idx
  assume "searchText this tx b = Inr r"
    "searchText this tx b =
         Inr \<lparr>match = Some \<lparr>SearchResult.score = calculateScore this idx (indexOf idx (query this)) t b,
                matches = span_loop (extractWords tx) (indexOf idx (query this)) (length (query this)) 0 0 0 []\<rparr>,
              score = calculateScore this idx (indexOf idx (query this)) t b\<rparr>"
  then have "score r = calculateScore this idx (indexOf idx (query this)) t b" by auto
  then show ?thesis using calculateScore_floor [of this idx "indexOf idx (query this)" t b] by simp
qed

lemma spec_score_prefix:
  "0 < k \<Longrightarrow> spec_score n l k len b md \<le> spec_score n l 0 len b md"
  unfolding spec_score_def by (rule max.mono) auto

lemma spec_score_prefix_strict:
  "0 < k \<Longrightarrow> 0.1 < spec_score n l 0 len b md \<Longrightarrow>
     spec_score n l k len b md < spec_score n l 0 len b md"
proof -
  assume k: "0 < k" and f: "0.1 < spec_score n l 0 len b md"
  define u where "u = 1.0
        + (if n > 1 then 2.0 else (0::rat))
        + (if b then 2.0 else 0)
        + (of_nat n / of_nat (max l 1)) * 2.0
        + (if n = l then 2.0 else 0)
        - of_int (max 0 (int len - 15)) * 0.02
        + (if md then 0.5 else 0)"
  have s0: "spec_score n l 0 len b md = max 0.1 (u + 3)"
    unfolding spec_score_def u_def by (simp split del: if_split)
  have sk: "spec_score n l k len b md = max 0.1 (u - of_int k * 0.1)"
    unfolding spec_score_def u_def using k by (simp split del: if_split)
  have "(0::rat) < of_int k" using k by simp
  then show ?thesis using f unfolding s0 sk by (simp add: max_def split: if_splits)
qed

lemma spec_score_basename:
  "spec_score n l k len False md \<le> spec_score n l k len True md"
  unfolding spec_score_def by (rule max.mono) auto

lemma spec_score_basename_strict:
  "0.1 < spec_score n l k len True md \<Longrightarrow>
     spec_score n l k len False md < spec_score n l k len True md"
proof -
  assume f: "0.1 < spec_score n l k len True md"
  define u where "u = 1.0
        + (if k = 0 then 3.0 else (0::rat))
        + (if n > 1 then 2.0 else 0)"
  define v where "v = (of_nat n / of_nat (max l 1)) * 2.0
        + (if n = l then 2.0 else 0)
        - of_int (max 0 (int len - 15)) * 0.02
        + (if md then 0.5 else 0)
        - of_int k * (0.1::rat)"
  have s0: "spec_score n l k len True md = max 0.1 (u + v + 2)"
    unfolding spec_score_def u_def v_def by (simp split del: if_split)
  have sk: "spec_score n l k len False md = max 0.1 (u + v)"
    unfolding spec_score_def u_def v_def by (simp split del: if_split)
  show ?thesis using f unfolding s0 sk by (simp add: max_def split: if_splits)
qed

lemma endsWith_set: "endsWith s t \<Longrightarrow> set t \<subseteq> set s"
  unfolding endsWith_def by (metis set_drop_subset)

lemma toLowerCase_append: "toLowerCase (s @ t) = toLowerCase s @ toLowerCase t"
  by (simp add: toLowerCase_def)

lemma toLowerCase_js_lower:
  "\<forall>c\<in>set s. \<not> has_lowercase_mapping c \<Longrightarrow> toLowerCase (js s) = js s"
  by (induction s) (auto simp: toLowerCase_def js_def)

lemma toLowerCase_replicate_b:
  "toLowerCase (replicate n (Latin1 CHR ''b'')) = replicate n (Latin1 CHR ''b'')"
  by (induction n) (auto simp: toLowerCase_def has_lowercase_mapping_def)

lemma long_text_not_md:
  "\<not> endsWith (toLowerCase (js ''a-a'' @ replicate n (Latin1 CHR ''b''))) (js ''.md'')"
proof
  assume "endsWith (toLowerCase (js ''a-a'' @ replicate n (Latin1 CHR ''b''))) (js ''.md'')"
  then have "Latin1 CHR ''.'' \<in> set (toLowerCase (js ''a-a'' @ replicate n (Latin1 CHR ''b'')))"
    using endsWith_set by (fastforce simp: js_def)
  then show False
    by (auto simp: toLowerCase_append toLowerCase_replicate_b toLowerCase_def js_def
        has_lowercase_mapping_def)
qed

lemma trim_all_space: "list_all is_space s \<Longrightarrow> trim s = []"
  by (auto simp: trim_def list_all_iff dest: set_dropWhileD)

lemma searchText_empty_query:
  "query this = [] \<Longrightarrow> searchText this tx b = Inr \<lparr>match = None, score = 0\<rparr>"
  by (cases tx) (simp_all add: searchText_def)

lemma searchWithFallback_empty_query:
  "query this = [] \<Longrightarrow>
     searchWithFallback this tx pathSegments = Inr \<lparr>match = None, score = 0\<rparr>"
  by (cases pathSegments) (simp_all add: searchWithFallback_def searchText_empty_query)

subsection \<open>Splitting at delimiters\<close>

lemma spec_fragments_run:
  "ds \<noteq> [] \<Longrightarrow> \<forall>d\<in>set ds. is_delimiter d \<Longrightarrow>
     fragments_by is_delimiter cur (ds @ rest) =
       (if cur = [] then fragments_by is_delimiter [] rest else cur # fragments_by is_delimiter [] rest)"
proof (induction ds arbitrary: cur)
  case Nil
  then show ?case by simp
next
  case (Cons d ds)
  show ?case
  proof (cases "ds = []")
    case True
    with Cons.prems show ?thesis by simp
  next
    case False
    with Cons.prems Cons.IH [of "[]"] show ?thesis by simp
  qed
qed

lemma take_step: "p \<le> q \<Longrightarrow> q < length s \<Longrightarrow>
  take (Suc q - p) (drop p s) = take (q - p) (drop p s) @ [s ! q]"
  by (simp add: Suc_diff_le take_Suc_conv_app_nth)

lemma split_loop_delimiterPattern:
  "p \<le> q \<Longrightarrow> q \<le> length s \<Longrightarrow>
     filter (\<lambda>w. w \<noteq> []) (split_loop delimiterPattern s p q) =
       fragments_by is_delimiter (take (q - p) (drop p s)) (drop q s)"
proof (induction delimiterPattern s p q rule: split_loop.induct)
  case (1 s p q)
  show ?case
  proof (cases "q < length s")
    case False
    with "1.prems" have "q = length s" by simp
    then show ?thesis
      by (subst split_loop.simps) simp
  next
    case True
    then have dq: "drop q s = s ! q # drop (Suc q) s"
      by (simp add: Cons_nth_drop_Suc)
    show ?thesis
    proof (cases "is_delimiter (s ! q)")
      case False
      then have m: "delimiterPattern s q = None"
        by (simp add: delimiterPattern_def dq)
      have "filter (\<lambda>w. w \<noteq> []) (split_loop delimiterPattern s p (Suc q)) =
              fragments_by is_delimiter (take (Suc q - p) (drop p s)) (drop (Suc q) s)"
        using "1.hyps"(1) [OF True m] "1.prems" True by simp
      then show ?thesis
        using True m False "1.prems" 
        by (subst split_loop.simps) (simp add: dq take_step)
    next
      case delim: True
      define n where "n = length (takeWhile is_delimiter (drop q s))"
      have n0: "0 < n" using delim by (simp add: n_def dq)
      have nle: "q + n \<le> length s"
        using length_takeWhile_le [of is_delimiter "drop q s"] True by (simp add: n_def)
      have m: "delimiterPattern s q = Some n"
        using n0 by (simp add: delimiterPattern_def n_def Let_def)
      have e: "min (q + n) (length s) = q + n" using nle by simp
      have ne: "min (q + n) (length s) \<noteq> p" using e n0 "1.prems" by simp
      have ih: "filter (\<lambda>w. w \<noteq> []) (split_loop delimiterPattern s (q + n) (q + n)) =
              fragments_by is_delimiter [] (drop (q + n) s)"
        using "1.hyps"(3) [OF True m ne] nle by (simp add: e)
      have "drop (q + n) s = drop n (drop q s)"
        by (simp add: add.commute)
      also have "\<dots> = dropWhile is_delimiter (drop q s)"
        unfolding n_def by (rule dropWhile_eq_drop [symmetric])
      finally have run: "drop q s = takeWhile is_delimiter (drop q s) @ drop (q + n) s"
        by simp
      have tw: "takeWhile is_delimiter (drop q s) \<noteq> []" using n0 by (auto simp: n_def)
      have "fragments_by is_delimiter (take (q - p) (drop p s)) (drop q s) =
              (if take (q - p) (drop p s) = [] then fragments_by is_delimiter [] (drop (q + n) s)
               else take (q - p) (drop p s) # fragments_by is_delimiter [] (drop (q + n) s))"
        by (subst run, rule spec_fragments_run [OF tw]) (auto dest: set_takeWhileD)
      then show ?thesis
        using True m ne ih
        by (subst split_loop.simps) (simp add: e)
    qed
  qed
qed

lemma regex_split_delimiterPattern:
  "filter (\<lambda>w. w \<noteq> []) (regex_split delimiterPattern s) = fragments_by is_delimiter [] s"
proof (cases "s = []")
  case True
  then show ?thesis by (simp add: regex_split_def delimiterPattern_def)
next
  case False
  then show ?thesis
    using split_loop_delimiterPattern [of 0 0 s] by (simp add: regex_split_def)
qed

subsection \<open>Splitting at case and digit transitions\<close>

lemma spec_transitions_Nil_iff [simp]: "transitions_by camel_boundary s = [] \<longleftrightarrow> s = []"
  by (induction camel_boundary s rule: transitions_by.induct) (auto split: list.splits)

lemma spec_transitions_no_empty: "[] \<notin> set (transitions_by camel_boundary s)"
  by (induction camel_boundary s rule: transitions_by.induct) (auto split: list.splits)

lemma spec_transitions_step:
  "transitions_by camel_boundary (c # d # cs) =
     (if camel_boundary c d then [c] # transitions_by camel_boundary (d # cs)
      else prepend [c] (transitions_by camel_boundary (d # cs)))"
  by (simp add: prepend_def split: list.splits)

lemma prepend_prepend: "ws \<noteq> [] \<Longrightarrow> prepend pre (prepend [c] ws) = prepend (pre @ [c]) ws"
  by (cases ws) (simp_all add: prepend_def)

lemma prepend_Nil: "ws \<noteq> [] \<Longrightarrow> prepend [] ws = ws"
  by (cases ws) (simp_all add: prepend_def)

lemma prepend_Cons: "prepend pre (w # ws) = (pre @ w) # ws"
  by (simp add: prepend_def)

lemma split_loop_camelPattern:
  "p < length s \<Longrightarrow> p \<le> q \<Longrightarrow> q \<le> length s \<Longrightarrow>
     split_loop camelPattern s p q =
       (if p = q then transitions_by camel_boundary (drop p s)
        else prepend (take (q - 1 - p) (drop p s)) (transitions_by camel_boundary (drop (q - 1) s)))"
proof (induction camelPattern s p q rule: split_loop.induct)
  case (1 s p q)
  show ?case
  proof (cases "q < length s")
    case False
    with "1.prems" have q: "q = length s" and pq: "p < q" by simp_all
    then have "drop (q - 1) s = [s ! (q - 1)]"
      by (metis Cons_nth_drop_Suc One_nat_def Suc_pred' diff_less drop_all less_imp_diff_less
          less_nat_zero_code linorder_neqE_nat order_refl zero_less_one)
    moreover have "take (q - 1 - p) (drop p s) @ [s ! (q - 1)] = drop p s"
      using take_step [of p "q - 1" s] q pq by simp
    ultimately show ?thesis
      using q pq by (subst split_loop.simps) (simp add: prepend_def)
  next
    case True
    then have dq: "drop q s = s ! q # drop (Suc q) s"
      by (simp add: Cons_nth_drop_Suc)
    have next_q: "split_loop camelPattern s p (Suc q) =
        prepend (take (q - p) (drop p s)) (transitions_by camel_boundary (drop q s))"
      if "camelPattern s q = None \<or> (camelPattern s q = Some 0 \<and> p = q)"
    proof -
      from that have "split_loop camelPattern s p (Suc q) =
        (if p = Suc q then transitions_by camel_boundary (drop p s)
         else prepend (take (Suc q - 1 - p) (drop p s)) (transitions_by camel_boundary (drop (Suc q - 1) s)))"
        using "1.hyps"(1) [OF True] "1.hyps"(2) [OF True, of 0] "1.prems" True by auto
      then show ?thesis using "1.prems" by simp
    qed
    show ?thesis
    proof (cases "p = q")
      case True
      have "camelPattern s q = None \<or> camelPattern s q = Some 0"
        by (simp add: camelPattern_def)
      then have "split_loop camelPattern s p q = split_loop camelPattern s p (Suc q)"
        using \<open>q < length s\<close> True by (subst split_loop.simps) auto
      then show ?thesis
        using next_q True \<open>q < length s\<close> by (auto simp: camelPattern_def prepend_Nil)
    next
      case False
      with "1.prems" have pq: "p < q" by simp
      then have dq1: "drop (q - 1) s = s ! (q - 1) # s ! q # drop (Suc q) s"
        using True dq by (metis Cons_nth_drop_Suc One_nat_def Suc_pred' less_imp_diff_less
            less_nat_zero_code linorder_neqE_nat)
      have tk: "take (q - 1 - p) (drop p s) @ [s ! (q - 1)] = take (q - p) (drop p s)"
        using take_step [of p "q - 1" s] pq True by simp
      show ?thesis
      proof (cases "camel_boundary (s ! (q - 1)) (s ! q)")
        case boundary: True
        then have m: "camelPattern s q = Some 0"
          using pq True by (simp add: camelPattern_def)
        have ne: "min (q + 0) (length s) \<noteq> p" using pq True by simp
        have "split_loop camelPattern s q q = transitions_by camel_boundary (drop q s)"
          using "1.hyps"(3) [OF True m ne] True by simp
        then have "split_loop camelPattern s p q =
            take (q - p) (drop p s) # transitions_by camel_boundary (drop q s)"
          using True m ne by (subst split_loop.simps) simp
        moreover have "transitions_by camel_boundary (drop (q - 1) s) =
            [s ! (q - 1)] # transitions_by camel_boundary (drop q s)"
          using boundary by (simp only: dq1 dq spec_transitions_step if_True)
        ultimately show ?thesis
          using pq tk by (simp add: prepend_Cons)
      next
        case noboundary: False
        then have m: "camelPattern s q = None"
          by (simp add: camelPattern_def)
        then have "split_loop camelPattern s p q = split_loop camelPattern s p (Suc q)"
          using True by (subst split_loop.simps) simp
        then have "split_loop camelPattern s p q =
            prepend (take (q - p) (drop p s)) (transitions_by camel_boundary (drop q s))"
          using next_q m by simp
        moreover have "transitions_by camel_boundary (drop (q - 1) s) =
            prepend [s ! (q - 1)] (transitions_by camel_boundary (drop q s))"
          using noboundary by (simp only: dq1 dq spec_transitions_step if_False)
        ultimately show ?thesis
          using pq tk True by (simp add: prepend_prepend)
      qed
    qed
  qed
qed

lemma regex_split_camelPattern:
  "s \<noteq> [] \<Longrightarrow> regex_split camelPattern s = transitions_by camel_boundary s"
  using split_loop_camelPattern [of 0 s 0] by (simp add: regex_split_def)

subsection \<open>Stem and extension\<close>

lemma split_on_not_Nil [simp]: "split_on c s \<noteq> []"
  by (induction s) (auto split: list.splits)

lemma split_on_no_sep: "w \<in> set (split_on c s) \<Longrightarrow> c \<notin> set w"
  by (induction s arbitrary: w) (auto split: list.splits if_splits)

lemma join_split_on: "join [c] (split_on c s) = s"
proof (induction s)
  case Nil
  then show ?case by simp
next
  case (Cons x s)
  obtain w ws where ws: "split_on c s = w # ws"
    using split_on_not_Nil [of c s] by (cases "split_on c s") auto
  with Cons show ?case by (cases ws) auto
qed

lemma split_on_single: "c \<notin> set s \<Longrightarrow> split_on c s = [s]"
  by (induction s) auto

lemma length_split_on: "1 < length (split_on c s) \<longleftrightarrow> c \<in> set s"
proof (induction s)
  case Nil
  then show ?case by simp
next
  case (Cons x s)
  obtain w ws where ws: "split_on c s = w # ws"
    using split_on_not_Nil [of c s] by (cases "split_on c s") auto
  with Cons show ?case by auto
qed

lemma join_snoc: "ws \<noteq> [] \<Longrightarrow> join sep (ws @ [w]) = join sep ws @ sep @ w"
  by (induction sep ws rule: join.induct) auto

lemma stem_extension:
  assumes "Latin1 CHR ''.'' \<in> set t"
  shows "last (split_on (Latin1 CHR ''.'') t) = spec_extension t"
    and "join (js ''.'') (butlast (split_on (Latin1 CHR ''.'') t)) = spec_stem t"
proof -
  let ?parts = "split_on (Latin1 CHR ''.'') t"
  let ?dot = "Latin1 CHR ''.''"
  have dot: "js ''.'' = [?dot]" by (simp add: js_def)
  have len: "1 < length ?parts" using assms length_split_on by blast
  then have bl: "butlast ?parts \<noteq> []"
    by (cases ?parts rule: rev_cases) auto
  have parts: "?parts = butlast ?parts @ [last ?parts]" by simp
  have "join [?dot] ?parts = join [?dot] (butlast ?parts) @ [?dot] @ last ?parts"
    using join_snoc [OF bl, of "[?dot]" "last ?parts"] by simp
  then have t: "t = join [?dot] (butlast ?parts) @ [?dot] @ last ?parts"
    using join_split_on [of ?dot t] by simp
  have nodot: "?dot \<notin> set (last ?parts)"
    by (rule split_on_no_sep [of _ _ t]) simp
  have r: "rev t = rev (last ?parts) @ ?dot # rev (join [?dot] (butlast ?parts))"
    by (subst t) simp
  have tw: "takeWhile (\<lambda>u. u \<noteq> ?dot) (rev t) = rev (last ?parts)"
    unfolding r using nodot by (subst takeWhile_append2) auto
  have dw: "dropWhile (\<lambda>u. u \<noteq> ?dot) (rev t) = ?dot # rev (join [?dot] (butlast ?parts))"
    unfolding r using nodot by (subst dropWhile_append2) auto
  show "last ?parts = spec_extension t"
    using assms tw by (simp add: spec_extension_def)
  show "join (js ''.'') (butlast ?parts) = spec_stem t"
    using assms dw by (simp add: spec_stem_def dot)
qed

lemma spec_fragments_no_empty: "[] \<notin> set (fragments_by is_delimiter cur s)"
  by (induction s arbitrary: cur) auto

lemma camel_words_of_fragments:
  "[] \<notin> set segs \<Longrightarrow>
     concat (map (\<lambda>segment. filter (\<lambda>w. w \<noteq> []) (regex_split camelPattern segment)) segs) =
     concat (map (transitions_by camel_boundary) segs)"
proof (induction segs)
  case Nil
  then show ?case by simp
next
  case (Cons a segs)
  then have "a \<noteq> []" by auto
  then have "filter (\<lambda>w. w \<noteq> []) (regex_split camelPattern a) = transitions_by camel_boundary a"
    using spec_transitions_no_empty [of a]
    by (simp add: regex_split_camelPattern filter_id_conv) metis
  with Cons show ?case by simp
qed

lemma filter_transitions:
  "filter (\<lambda>w. w \<noteq> []) (concat (map (transitions_by camel_boundary) segs)) =
     concat (map (transitions_by camel_boundary) segs)"
  using spec_transitions_no_empty by (induction segs) (auto simp: filter_id_conv)

lemma extractWords_segment:
  "extractWords (Some t) = segment_by is_delimiter camel_boundary t"
proof (cases "t = []")
  case True
  then show ?thesis by (simp add: extractWords_def segment_by_def)
next
  case False
  show ?thesis
  proof (cases "Latin1 CHR ''.'' \<in> set t")
    case True
    then have len: "1 < length (split_on (Latin1 CHR ''.'') t)" using length_split_on by blast
    show ?thesis
      using False len stem_extension [OF True]
        camel_words_of_fragments [OF spec_fragments_no_empty, of "[]" "spec_stem t"]
      by (simp add: extractWords_def segment_by_def Let_def regex_split_delimiterPattern
          filter_transitions)
  next
    case nodot: False
    then have st: "spec_stem t = t" "spec_extension t = []"
      by (simp_all add: spec_stem_def spec_extension_def)
    show ?thesis
      using False nodot camel_words_of_fragments [OF spec_fragments_no_empty, of "[]" t]
      by (simp add: extractWords_def segment_by_def Let_def regex_split_delimiterPattern
          split_on_single st filter_transitions js_def)
  qed
qed

subsection \<open>The classes of the regular expressions\<close>

lemma in_class_code_in:
  "in_class lo hi u \<longleftrightarrow> code_in (of_char lo) (of_char hi) u \<and> unit_code u < 256"
  by (cases u) (simp_all add: in_class_def code_in_def unit_code_def less_eq_char_def)

lemma unit_code_Latin1: "unit_code u = of_char c \<longleftrightarrow> u = Latin1 c"
proof (cases u)
  case (Latin1 d)
  then show ?thesis by (simp add: unit_code_def)
next
  case U0130
  have "(of_char c :: nat) < 256" by simp
  then have "(of_char c :: nat) \<noteq> 0x130" by arith
  then show ?thesis using U0130 by (simp add: unit_code_def)
next
  case U0307
  have "(of_char c :: nat) < 256" by simp
  then have "(of_char c :: nat) \<noteq> 0x307" by arith
  then show ?thesis using U0307 by (simp add: unit_code_def)
qed

lemma spec_delimiter_is_delimiter: "spec_delimiter = is_delimiter"
proof
  fix u
  have r: "code_in 0x09 0x0D u \<longleftrightarrow>
      unit_code u = 0x09 \<or> unit_code u = 0x0A \<or> unit_code u = 0x0B \<or>
      unit_code u = 0x0C \<or> unit_code u = 0x0D"
    by (auto simp: code_in_def)
  have c: "unit_code u = 0x09 \<longleftrightarrow> u = Latin1 (CHR 0x09)"
    "unit_code u = 0x0A \<longleftrightarrow> u = Latin1 (CHR 0x0A)"
    "unit_code u = 0x0B \<longleftrightarrow> u = Latin1 (CHR 0x0B)"
    "unit_code u = 0x0C \<longleftrightarrow> u = Latin1 (CHR 0x0C)"
    "unit_code u = 0x0D \<longleftrightarrow> u = Latin1 (CHR 0x0D)"
    "unit_code u = 0x20 \<longleftrightarrow> u = Latin1 (CHR 0x20)"
    "unit_code u = 0xA0 \<longleftrightarrow> u = Latin1 (CHR 0xA0)"
    using unit_code_Latin1 [of u "CHR 0x09"] unit_code_Latin1 [of u "CHR 0x0A"]
      unit_code_Latin1 [of u "CHR 0x0B"] unit_code_Latin1 [of u "CHR 0x0C"]
      unit_code_Latin1 [of u "CHR 0x0D"] unit_code_Latin1 [of u "CHR 0x20"]
      unit_code_Latin1 [of u "CHR 0xA0"]
    by simp_all
  show "spec_delimiter u = is_delimiter u"
    unfolding spec_delimiter_def is_delimiter_def is_space_def r c
    by (auto simp: js_def)
qed

lemma ascii_boundary_camel_boundary: "ascii_boundary = camel_boundary"
proof (intro ext)
  fix a b
  have lt: "unit_code u < 256" if "code_in lo hi u" "hi < 256" for lo hi u
    using that by (simp add: code_in_def)
  have lo: "is_lower_az u \<longleftrightarrow> code_in 0x61 0x7A u" for u
    using lt [of "0x61" "0x7A" u] by (auto simp: is_lower_az_def in_class_code_in)
  have up: "is_upper_AZ u \<longleftrightarrow> code_in 0x41 0x5A u" for u
    using lt [of "0x41" "0x5A" u] by (auto simp: is_upper_AZ_def in_class_code_in)
  have dg: "is_digit u \<longleftrightarrow> code_in 0x30 0x39 u" for u
    using lt [of "0x30" "0x39" u] by (auto simp: is_digit_def in_class_code_in)
  show "ascii_boundary a b = camel_boundary a b"
    by (simp add: ascii_boundary_def camel_boundary_def is_letter_def lo up dg)
qed

lemma extractWords_ascii_segment: "extractWords (Some t) = ascii_segment t"
  by (simp add: extractWords_segment ascii_segment_def spec_delimiter_is_delimiter
      ascii_boundary_camel_boundary)


subsection \<open>The substring search\<close>

lemma occurs_at_0: "occurs_at q s 0 \<longleftrightarrow> prefix q s"
  by (auto simp: occurs_at_def prefix_def) (metis append_take_drop_id)

lemma occurs_at_Suc: "occurs_at q (c # cs) (Suc i) \<longleftrightarrow> occurs_at q cs i"
  by (simp add: occurs_at_def)

lemma occurs_at_Nil: "occurs_at q [] i \<longleftrightarrow> q = [] \<and> i = 0"
  by (auto simp: occurs_at_def)

lemma indexOf_from_absent:
  "indexOf_from k s q = - 1 \<longleftrightarrow> (\<forall>i. \<not> occurs_at q s i)"
proof (induction s arbitrary: k)
  case Nil
  then show ?case by (auto simp: occurs_at_Nil)
next
  case (Cons c cs)
  show ?case
  proof (cases "prefix q (c # cs)")
    case True
    then show ?thesis using occurs_at_0 [of q "c # cs"] by auto
  next
    case False
    have "(\<forall>i. \<not> occurs_at q (c # cs) i) \<longleftrightarrow> (\<forall>i. \<not> occurs_at q cs i)"
    proof
      assume "\<forall>i. \<not> occurs_at q (c # cs) i"
      then show "\<forall>i. \<not> occurs_at q cs i" using occurs_at_Suc by blast
    next
      assume a: "\<forall>i. \<not> occurs_at q cs i"
      show "\<forall>i. \<not> occurs_at q (c # cs) i"
      proof
        fix i show "\<not> occurs_at q (c # cs) i"
          using a False occurs_at_0 [of q "c # cs"] occurs_at_Suc [of q c cs]
          by (cases i) auto
      qed
    qed
    with False Cons.IH [of "Suc k"] show ?thesis by simp
  qed
qed

lemma indexOf_from_present:
  "indexOf_from k s q \<noteq> - 1 \<Longrightarrow>
     \<exists>i. indexOf_from k s q = int (k + i) \<and> occurs_at q s i \<and> (\<forall>j<i. \<not> occurs_at q s j)"
proof (induction s arbitrary: k)
  case Nil
  then show ?case by (auto simp: occurs_at_Nil split: if_splits)
next
  case (Cons c cs)
  show ?case
  proof (cases "prefix q (c # cs)")
    case True
    then have "indexOf_from k (c # cs) q = int (k + 0)" "occurs_at q (c # cs) 0"
      by (simp_all add: occurs_at_0)
    then show ?thesis by blast
  next
    case False
    with Cons.prems have "indexOf_from (Suc k) cs q \<noteq> - 1" by simp
    from Cons.IH [OF this] obtain i where
      i: "indexOf_from (Suc k) cs q = int (Suc k + i)" "occurs_at q cs i"
         "\<forall>j<i. \<not> occurs_at q cs j"
      by blast
    have "\<not> occurs_at q (c # cs) j" if "j < Suc i" for j
      using that i(3) False occurs_at_0 [of q "c # cs"] occurs_at_Suc [of q c cs]
      by (cases j) auto
    moreover have "indexOf_from k (c # cs) q = int (k + Suc i)"
      using False i(1) by simp
    moreover have "occurs_at q (c # cs) (Suc i)"
      using i(2) by (simp add: occurs_at_Suc)
    ultimately show ?thesis by blast
  qed
qed

lemma indexOf_absent: "indexOf s q = - 1 \<longleftrightarrow> (\<forall>i. \<not> occurs_at q s i)"
  unfolding indexOf_def by (rule indexOf_from_absent)

lemma indexOf_present:
  assumes "indexOf s q \<noteq> - 1"
  shows "0 \<le> indexOf s q" and "occurs_at q s (nat (indexOf s q))"
    and "\<forall>j < nat (indexOf s q). \<not> occurs_at q s j"
proof -
  from indexOf_from_present [of 0 s q] assms obtain i where
    i: "indexOf s q = int i" "occurs_at q s i" "\<forall>j<i. \<not> occurs_at q s j"
    unfolding indexOf_def by auto
  then show "0 \<le> indexOf s q" and "occurs_at q s (nat (indexOf s q))"
    and "\<forall>j < nat (indexOf s q). \<not> occurs_at q s j"
    by simp_all
qed

lemma occurs_at_nth: "occurs_at q s i \<Longrightarrow> j < length q \<Longrightarrow> q ! j = s ! (i + j)"
  unfolding occurs_at_def by (metis add.commute le_add2 nth_drop nth_take order_trans add_le_cancel_left le_refl)

subsection \<open>The loop over the words\<close>

lemma span_loop_step:
  "i < length ws \<Longrightarrow> qi < Q \<Longrightarrow>
     span_loop ws (int M) Q i c qi sp =
       span_loop ws (int M) Q (Suc i)
         (c + length (ws ! i) + (if Suc i < length ws then 1 else 0))
         (if M \<le> i \<and> i < M + Q then Suc qi else qi)
         (if M \<le> i \<and> i < M + Q then sp @ [(c, Suc c)] else sp)"
  by (subst span_loop.simps) (auto simp: Let_def)

lemma span_loop_stop:
  "\<not> (i < length ws \<and> qi < Q) \<Longrightarrow> span_loop ws mi Q i c qi sp = sp"
  by (subst span_loop.simps) auto

lemma charStart_Suc:
  "i < length ws \<Longrightarrow> charStart ws (Suc i) = charStart ws i + length (ws ! i) + 1"
  by (simp add: charStart_def take_Suc_conv_app_nth)

lemma span_loop_spec:
  assumes "M + Q \<le> length ws"
  shows "i \<le> length ws \<Longrightarrow> (i < length ws \<Longrightarrow> c = charStart ws i) \<Longrightarrow>
     span_loop ws (int M) Q i c (min Q (i - M))
       (map (\<lambda>j. (charStart ws j, charStart ws j + 1)) [M ..< max M (min i (M + Q))]) =
     map (\<lambda>j. (charStart ws j, charStart ws j + 1)) [M ..< M + Q]"
proof (induction "length ws - i" arbitrary: i c)
  case 0
  then have "i = length ws" by simp
  with assms show ?case
    by (simp add: span_loop_stop max_def min_def)
next
  case (Suc n)
  then have lt: "i < length ws" by simp
  with Suc.prems have c: "c = charStart ws i" by simp
  let ?f = "\<lambda>j. (charStart ws j, charStart ws j + 1)"
  show ?case
  proof (cases "min Q (i - M) < Q")
    case False
    then have "Q = 0 \<or> M + Q \<le> i" by (auto simp: min_def split: if_splits)
    then have "[M ..< max M (min i (M + Q))] = [M ..< M + Q]"
      by (auto simp: max_def min_def)
    with False show ?thesis by (simp add: span_loop_stop)
  next
    case True
    then have iq: "i < M + Q" by (auto simp: min_def split: if_splits)
    have n: "n = length ws - Suc i" using Suc.hyps(2) by simp
    have c': "Suc i < length ws \<Longrightarrow>
        c + length (ws ! i) + (if Suc i < length ws then 1 else 0) = charStart ws (Suc i)"
      using lt c by (simp add: charStart_Suc)
    have ih: "span_loop ws (int M) Q (Suc i)
        (c + length (ws ! i) + (if Suc i < length ws then 1 else 0)) (min Q (Suc i - M))
        (map ?f [M ..< max M (min (Suc i) (M + Q))]) = map ?f [M ..< M + Q]"
      using Suc.hyps(1) [OF n _ c'] lt by simp
    show ?thesis
    proof (cases "M \<le> i")
      case hit: True
      then have "max M (min i (M + Q)) = i" "max M (min (Suc i) (M + Q)) = Suc i"
        "min Q (i - M) = i - M" "min Q (Suc i - M) = Suc (i - M)"
        using iq by (auto simp: max_def min_def)
      then show ?thesis
        using ih hit iq lt True c by (simp add: span_loop_step)
    next
      case miss: False
      then have "max M (min i (M + Q)) = M" "max M (min (Suc i) (M + Q)) = M"
        "min Q (i - M) = 0" "min Q (Suc i - M) = 0"
        by (auto simp: max_def min_def)
      then show ?thesis
        using ih miss lt True by (simp add: span_loop_step)
    qed
  qed
qed

lemma span_loop_matches:
  assumes "M + Q \<le> length ws"
  shows "span_loop ws (int M) Q 0 0 0 [] =
     map (\<lambda>j. (charStart ws j, charStart ws j + 1)) [M ..< M + Q]"
  using span_loop_spec [OF assms, of 0 0] by (simp add: charStart_def)

subsection \<open>Initials of one code unit\<close>

lemma length_toLowerCase_unit: "length (toLowerCase_unit u) = (if u = U0130 then 2 else 1)"
  by (cases u) auto

lemma toLowerCase_unit_single: "u \<noteq> U0130 \<Longrightarrow> toLowerCase_unit u = [hd (toLowerCase_unit u)]"
  by (cases u) auto

lemma initials_single:
  "\<forall>w\<in>set ws. hd w \<noteq> U0130 \<Longrightarrow>
     concat (map (\<lambda>word. toLowerCase [hd word]) ws) = map (\<lambda>word. hd (toLowerCase [hd word])) ws"
  by (induction ws) (auto simp: toLowerCase_def toLowerCase_unit_single [symmetric])

lemma extractWords_hd: "w \<in> set (extractWords tx) \<Longrightarrow> hd w = w ! 0"
proof -
  assume "w \<in> set (extractWords tx)"
  with extractWords_no_empty [of tx] have "w \<noteq> []" by auto
  then show ?thesis by (simp add: hd_conv_nth)
qed

lemma initials_extractWords:
  assumes "\<forall>w\<in>set (extractWords tx). w ! 0 \<noteq> U0130"
  shows "createSearchableString (extractWords tx) =
           Inr (map (\<lambda>word. hd (toLowerCase [word ! 0])) (extractWords tx))"
proof -
  have "\<forall>w\<in>set (extractWords tx). hd w \<noteq> U0130"
    using assms extractWords_hd by metis
  then have "concat (map (\<lambda>word. toLowerCase [hd word]) (extractWords tx)) =
      map (\<lambda>word. hd (toLowerCase [hd word])) (extractWords tx)"
    by (rule initials_single)
  also have "\<dots> = map (\<lambda>word. hd (toLowerCase [word ! 0])) (extractWords tx)"
    using extractWords_hd by (simp cong: map_cong)
  finally show ?thesis by (simp add: createSearchableString_extractWords)
qed

subsection \<open>A long text\<close>

lemma spec_fragments_no_delimiter:
  "\<forall>c\<in>set s. \<not> is_delimiter c \<Longrightarrow>
     fragments_by is_delimiter cur s = (if cur @ s = [] then [] else [cur @ s])"
  by (induction s arbitrary: cur) auto

lemma lower_not_upper_digit: "is_lower_az u \<Longrightarrow> \<not> is_upper_AZ u \<and> \<not> is_digit u"
proof (cases u)
  case (Latin1 c)
  assume "is_lower_az u"
  with Latin1 have a: "CHR ''a'' \<le> c" by (simp add: is_lower_az_def in_class_def)
  have "\<not> c \<le> CHR ''Z''"
  proof
    assume "c \<le> CHR ''Z''"
    with a have "CHR ''a'' \<le> CHR ''Z''" by (rule order_trans)
    then show False by simp
  qed
  moreover have "\<not> c \<le> CHR ''9''"
  proof
    assume "c \<le> CHR ''9''"
    with a have "CHR ''a'' \<le> CHR ''9''" by (rule order_trans)
    then show False by simp
  qed
  ultimately show ?thesis using Latin1 by (simp add: is_upper_AZ_def is_digit_def in_class_def)
qed (simp_all add: is_upper_AZ_def is_digit_def in_class_def)

lemma lower_no_boundary: "is_lower_az c \<Longrightarrow> is_lower_az d \<Longrightarrow> \<not> camel_boundary c d"
  using lower_not_upper_digit by (auto simp: camel_boundary_def)

lemma spec_transitions_lower:
  "\<forall>c\<in>set s. is_lower_az c \<Longrightarrow> s \<noteq> [] \<Longrightarrow> transitions_by camel_boundary s = [s]"
  by (induction camel_boundary s rule: transitions_by.induct) (auto simp: lower_no_boundary)

lemma long_text_words:
  "extractWords (Some (js ''a-a'' @ replicate n (Latin1 CHR ''b''))) =
     [js ''a'', js ''a'' @ replicate n (Latin1 CHR ''b'')]"
proof -
  let ?t = "js ''a-a'' @ replicate n (Latin1 CHR ''b'')"
  have nodot: "Latin1 CHR ''.'' \<notin> set ?t" by (auto simp: js_def)
  have "fragments_by is_delimiter (js ''a'') (replicate n (Latin1 CHR ''b'')) =
      [js ''a'' @ replicate n (Latin1 CHR ''b'')]"
    by (subst spec_fragments_no_delimiter) (auto simp: is_delimiter_def is_space_def js_def)
  then have fr: "fragments_by is_delimiter [] ?t = [js ''a'', js ''a'' @ replicate n (Latin1 CHR ''b'')]"
    by (simp add: is_delimiter_def is_space_def js_def)
  have tr: "transitions_by camel_boundary (js ''a'' @ replicate n (Latin1 CHR ''b'')) =
      [js ''a'' @ replicate n (Latin1 CHR ''b'')]"
    by (rule spec_transitions_lower) (auto simp: is_lower_az_def in_class_def js_def)
  have tr1: "transitions_by camel_boundary (js ''a'') = [js ''a'']"
    by (simp add: js_def)
  show ?thesis
    using nodot fr tr tr1
    unfolding extractWords_segment segment_by_def spec_stem_def spec_extension_def
    by simp
qed

lemma long_text_initials:
  "createSearchableString [js ''a'', js ''a'' @ replicate n (Latin1 CHR ''b'')] = Inr (js ''aa'')"
  by (simp add: js_def toLowerCase_def has_lowercase_mapping_def)

lemma long_text_index:
  "createSearchableString (extractWords (Some (js ''a-a'' @ replicate n (Latin1 CHR ''b'')))) =
     Inr (js ''aa'')"
  by (simp only: long_text_words long_text_initials)

lemma long_text_search:
  "searchText \<lparr>query = js ''a''\<rparr> (Some (js ''a-a'' @ replicate 400 (Latin1 CHR ''b''))) b =
     Inr \<lparr>match = Some \<lparr>SearchResult.score = 0.1, matches = [(0, 1)]\<rparr>, score = 0.1\<rparr>"
proof (rule searchText_match_eval)
  show "extractWords (Some (js ''a-a'' @ replicate 400 (Latin1 CHR ''b''))) =
      [js ''a'', js ''a'' @ replicate 400 (Latin1 CHR ''b'')]"
    by (rule long_text_words)
  show "createSearchableString [js ''a'', js ''a'' @ replicate 400 (Latin1 CHR ''b'')] = Inr (js ''aa'')"
    by (rule long_text_initials)
  show "indexOf (js ''aa'') (query \<lparr>query = js ''a''\<rparr>) = 0"
    by (simp add: indexOf_def js_def)
  show "calculateScore \<lparr>query = js ''a''\<rparr> (js ''aa'') 0
      (js ''a-a'' @ replicate 400 (Latin1 CHR ''b'')) b = 0.1"
    by (cases b) (simp_all add: calculateScore_spec_score spec_score_def long_text_not_md)
  show "span_loop [js ''a'', js ''a'' @ replicate 400 (Latin1 CHR ''b'')] 0
      (length (query \<lparr>query = js ''a''\<rparr>)) 0 0 0 [] = [(0, 1)]"
    using span_loop_matches [of 0 1 "[js ''a'', js ''a'' @ replicate 400 (Latin1 CHR ''b'')]"]
    by (simp add: charStart_def js_def)
qed (simp_all add: js_def)

subsection \<open>The two score fields of a result\<close>

text \<open>
  C10. A result of \<open>searchText\<close> or of \<open>searchWithFallback\<close> keeps its two scores
  consistent: with a match, the score inside the match is the score of the result;
  without one, the score of the result is exactly 0.
\<close>

theorem result_scores_consistent:
  "searchText this tx b = Inr r \<or> searchWithFallback this tx pathSegments = Inr r \<Longrightarrow>
     (case match r of None \<Rightarrow> score r = 0 | Some m \<Rightarrow> SearchResult.score m = score r)"
  using searchText_consistent searchWithFallback_cases by blast

theorem result_scores_consistent_witness:
  "searchText (new_AcronymSearcher (Some (js ''mfc''))) (Some (js ''MyFirstComponent.jsx'')) False =
     Inr \<lparr>match = Some \<lparr>SearchResult.score = 37 / 5, matches = [(0, 1), (3, 4), (9, 10)]\<rparr>,
          score = 37 / 5\<rparr> \<and>
   (case match \<lparr>match = Some \<lparr>SearchResult.score = 37 / 5, matches = [(0, 1), (3, 4), (9, 10)]\<rparr>,
          score = 37 / 5\<rparr> of
      None \<Rightarrow> score \<lparr>match = Some \<lparr>SearchResult.score = 37 / 5, matches = [(0, 1), (3, 4), (9, 10)]\<rparr>,
          score = 37 / 5\<rparr> = 0
    | Some m \<Rightarrow> SearchResult.score m = 37 / 5)"
proof -
  have q: "new_AcronymSearcher (Some (js ''mfc'')) = \<lparr>query = js ''mfc''\<rparr>"
    by (rule query_new_eval) code_simp
  have h: "searchText \<lparr>query = js ''mfc''\<rparr> (Some (js ''MyFirstComponent.jsx'')) False =
     Inr \<lparr>match = Some \<lparr>SearchResult.score = 37 / 5, matches = [(0, 1), (3, 4), (9, 10)]\<rparr>,
          score = 37 / 5\<rparr>"
  proof (rule searchText_match_eval)
    show "extractWords (Some (js ''MyFirstComponent.jsx'')) = map js [''My'', ''First'', ''Component'', ''jsx'']"
      by code_simp
    show "createSearchableString (map js [''My'', ''First'', ''Component'', ''jsx'']) = Inr (js ''mfcj'')"
      by code_simp
    show "indexOf (js ''mfcj'') (query \<lparr>query = js ''mfc''\<rparr>) = 0"
      by code_simp
    show "calculateScore \<lparr>query = js ''mfc''\<rparr> (js ''mfcj'') 0 (js ''MyFirstComponent.jsx'') False = 37 / 5"
      by code_simp
    show "span_loop (map js [''My'', ''First'', ''Component'', ''jsx'']) 0 (length (query \<lparr>query = js ''mfc''\<rparr>)) 0 0 0 [] =
            [(0, 1), (3, 4), (9, 10)]"
      by code_simp
  qed simp_all
  from result_scores_consistent [OF disjI1 [OF h]] h q show ?thesis by simp
qed

subsection \<open>The blank query\<close>

text \<open>
  C4. When the query given to the constructor is null, empty or white space only, the
  searcher has no search term, and \<open>searchText\<close> and \<open>searchWithFallback\<close> return
  no match with score exactly 0 on every text; a match, of any searcher, has a score of
  0.1 at least, so the two can be told apart.
\<close>

theorem blank_query_inert:
  "list_all is_space (case q of None \<Rightarrow> [] | Some s \<Rightarrow> s) \<Longrightarrow>
     \<not> hasSearchTerm (new_AcronymSearcher q) \<and>
     searchText (new_AcronymSearcher q) tx b = Inr \<lparr>match = None, score = 0\<rparr> \<and>
     searchWithFallback (new_AcronymSearcher q) tx pathSegments = Inr \<lparr>match = None, score = 0\<rparr> \<and>
     (\<forall>this' tx' b' r. searchText this' tx' b' = Inr r \<and> match r \<noteq> None \<longrightarrow> 0.1 \<le> score r)"
proof -
  assume "list_all is_space (case q of None \<Rightarrow> [] | Some s \<Rightarrow> s)"
  then have q: "query (new_AcronymSearcher q) = []"
    by (simp add: new_AcronymSearcher_def trim_all_space toLowerCase_def)
  have "\<forall>this' tx' b' r. searchText this' tx' b' = Inr r \<and> match r \<noteq> None \<longrightarrow> 0.1 \<le> score r"
    using searchText_match_score by blast
  moreover have "\<not> hasSearchTerm (new_AcronymSearcher q)"
    using q by (simp add: hasSearchTerm_def)
  ultimately show ?thesis
    using q searchText_empty_query searchWithFallback_empty_query by blast
qed

theorem blank_query_inert_witness:
  "list_all is_space (case Some (js ''   '') of None \<Rightarrow> [] | Some s \<Rightarrow> s) \<and>
   \<not> hasSearchTerm (new_AcronymSearcher (Some (js ''   ''))) \<and>
   searchText (new_AcronymSearcher (Some (js ''   ''))) (Some (js ''anyfile.txt'')) True =
     Inr \<lparr>match = None, score = 0\<rparr> \<and>
   searchWithFallback (new_AcronymSearcher (Some (js ''   ''))) (Some (js ''anyfile.txt''))
     (Some \<lparr>basename = Some (js ''anyfile''), path = Some (js ''notes/anyfile.txt'')\<rparr>) =
     Inr \<lparr>match = None, score = 0\<rparr>"
proof -
  have h: "list_all is_space (case Some (js ''   '') of None \<Rightarrow> [] | Some s \<Rightarrow> s)"
    by (simp add: is_space_def js_def)
  from blank_query_inert [OF h] h show ?thesis by blast
qed

subsection \<open>The initials index\<close>

text \<open>
  On the words of a segmentation the initials index is built without error, and it is
  the concatenation, in order, of the lower-cased first character of every word. When no
  word begins with U+0130, it has as many code units as there are words, and its code
  unit \<open>i\<close> is the lower-cased first character of word \<open>i\<close>.
\<close>

lemma initials_index:
  "createSearchableString (extractWords tx) =
     Inr (concat (map (\<lambda>word. toLowerCase [word ! 0]) (extractWords tx)))"
proof -
  have "map (\<lambda>word. toLowerCase [hd word]) (extractWords tx) =
        map (\<lambda>word. toLowerCase [word ! 0]) (extractWords tx)"
    by (rule map_cong [OF refl]) (simp add: extractWords_hd)
  then show ?thesis by (simp only: createSearchableString_extractWords)
qed

lemma initials_index_length:
  assumes "\<forall>w\<in>set (extractWords tx). w ! 0 \<noteq> U0130"
    and "createSearchableString (extractWords tx) = Inr idx"
  shows "length idx = length (extractWords tx)"
    and "\<forall>i < length idx. [idx ! i] = toLowerCase [extractWords tx ! i ! 0]"
proof -
  have idx: "idx = map (\<lambda>word. hd (toLowerCase [word ! 0])) (extractWords tx)"
    using initials_extractWords [OF assms(1)] assms(2) by simp
  then show "length idx = length (extractWords tx)" by simp
  show "\<forall>i < length idx. [idx ! i] = toLowerCase [extractWords tx ! i ! 0]"
  proof (intro allI impI)
    fix i assume "i < length idx"
    then have i: "i < length (extractWords tx)" using idx by simp
    then have "extractWords tx ! i ! 0 \<noteq> U0130" using assms(1) by simp
    then show "[idx ! i] = toLowerCase [extractWords tx ! i ! 0]"
      using i idx by (simp add: toLowerCase_def toLowerCase_unit_single [symmetric])
  qed
qed

text \<open>
  C9. The initials index is the concatenation, in order, of the lower-cased first
  character of each word, and the specification gives its length as the number of words.
  The code breaks the second half on a word that begins with U+0130, whose lower-casing
  has two code units: the two words of the text below give an index of three code units.
\<close>

theorem initials_index_dotted_I:
  "extractWords (Some (U0130 # js ''stanbul.md'')) = [U0130 # js ''stanbul'', js ''md''] \<and>
   createSearchableString (extractWords (Some (U0130 # js ''stanbul.md''))) =
     Inr [Latin1 CHR ''i'', U0307, Latin1 CHR ''m''] \<and>
   length [Latin1 CHR ''i'', U0307, Latin1 CHR ''m''] \<noteq>
     length (extractWords (Some (U0130 # js ''stanbul.md'')))"
proof -
  have w: "extractWords (Some (U0130 # js ''stanbul.md'')) = [U0130 # js ''stanbul'', js ''md'']"
    by code_simp
  have "createSearchableString [U0130 # js ''stanbul'', js ''md''] =
      Inr [Latin1 CHR ''i'', U0307, Latin1 CHR ''m'']"
    by code_simp
  with w show ?thesis by simp
qed

subsection \<open>The score\<close>

text \<open>
  In the exact arithmetic of the model, and when no word begins with U+0130, the score
  of a match is the sum of the specification over the number of words and the match
  index, floored at 0.1; the score inside the match is the same.
\<close>

lemma matched_score_plain:
  assumes "\<forall>w\<in>set (extractWords (Some t)). w ! 0 \<noteq> U0130"
    and "searchText this (Some t) b = Inr r" and "match r = Some m"
  shows "\<exists>idx. createSearchableString (extractWords (Some t)) = Inr idx \<and>
        score r =
          spec_score (length (query this)) (length (extractWords (Some t)))
            (indexOf idx (query this)) (length t) b (endsWith (toLowerCase t) (js ''.md'')) \<and>
        SearchResult.score m = score r"
proof (rule searchText_cases [of this "Some t" b])
  assume "searchText this (Some t) b = Inr \<lparr>match = None, score = 0\<rparr>"
  with assms(2,3) show ?thesis by auto
next
  fix t' idx
  assume t': "Some t = Some t'"
    and idx: "createSearchableString (extractWords (Some t)) = Inr idx"
    and eq: "searchText this (Some t) b =
         Inr \<lparr>match = Some \<lparr>SearchResult.score = calculateScore this idx (indexOf idx (query this)) t' b,
                matches = span_loop (extractWords (Some t)) (indexOf idx (query this)) (length (query this)) 0 0 0 []\<rparr>,
              score = calculateScore this idx (indexOf idx (query this)) t' b\<rparr>"
  from assms(2,3) eq t' have "score r = calculateScore this idx (indexOf idx (query this)) t b"
    and "SearchResult.score m = score r"
    by auto
  moreover have "length idx = length (extractWords (Some t))"
    using initials_index_length(1) [OF assms(1) idx] .
  ultimately show ?thesis using idx by (auto simp: calculateScore_spec_score)
qed


text \<open>
  C7, as amended. For one query, index, text and flag, a match at index 0 scores at
  least as high as a match at an index \<open>k > 0\<close>, and strictly higher whenever its own
  score is above the floor of 0.1.
\<close>

theorem prefix_scores_higher:
  "0 < k \<Longrightarrow>
     calculateScore this idx k t b \<le> calculateScore this idx 0 t b \<and>
     (0.1 < calculateScore this idx 0 t b \<longrightarrow>
        calculateScore this idx k t b < calculateScore this idx 0 t b)"
  unfolding calculateScore_spec_score
  using spec_score_prefix spec_score_prefix_strict by blast

theorem prefix_scores_higher_witness:
  "(0::int) < 1 \<and>
   0.1 < calculateScore \<lparr>query = js ''abc''\<rparr> (js ''zabct'') 0 (js ''zebra-apple-banana-cherry.txt'') False \<and>
   calculateScore \<lparr>query = js ''abc''\<rparr> (js ''zabct'') 1 (js ''zebra-apple-banana-cherry.txt'') False
     < calculateScore \<lparr>query = js ''abc''\<rparr> (js ''zabct'') 0 (js ''zebra-apple-banana-cherry.txt'') False"
proof -
  have k: "(0::int) < 1" by simp
  have f: "0.1 < calculateScore \<lparr>query = js ''abc''\<rparr> (js ''zabct'') 0 (js ''zebra-apple-banana-cherry.txt'') False"
    by code_simp
  from prefix_scores_higher [OF k, of "\<lparr>query = js ''abc''\<rparr>" "js ''zabct''" "js ''zebra-apple-banana-cherry.txt''" False]
    k f show ?thesis by blast
qed

text \<open>
  Without the condition on the floor the statement fails on a long text. The text of
  303 characters below has the
  initials index \<open>aa\<close>, where the query \<open>a\<close> occurs at 0 and at 1, and both
  scores are the floor.
\<close>

theorem prefix_scores_higher_counterexample:
  "createSearchableString (extractWords (Some (js ''a-a'' @ replicate 300 (Latin1 CHR ''b'')))) = Inr (js ''aa'') \<and>
   occurs_at (js ''a'') (js ''aa'') 0 \<and> occurs_at (js ''a'') (js ''aa'') 1 \<and>
   \<not> calculateScore \<lparr>query = js ''a''\<rparr> (js ''aa'') 1 (js ''a-a'' @ replicate 300 (Latin1 CHR ''b'')) False
      < calculateScore \<lparr>query = js ''a''\<rparr> (js ''aa'') 0 (js ''a-a'' @ replicate 300 (Latin1 CHR ''b'')) False"
proof -
  have "occurs_at (js ''a'') (js ''aa'') 0" "occurs_at (js ''a'') (js ''aa'') 1"
    by (simp_all add: occurs_at_def js_def)
  moreover have "\<not> calculateScore \<lparr>query = js ''a''\<rparr> (js ''aa'') 1 (js ''a-a'' @ replicate 300 (Latin1 CHR ''b'')) False
      < calculateScore \<lparr>query = js ''a''\<rparr> (js ''aa'') 0 (js ''a-a'' @ replicate 300 (Latin1 CHR ''b'')) False"
    by (simp add: calculateScore_spec_score spec_score_def long_text_not_md)
  ultimately show ?thesis
    using long_text_index [of 300] by blast
qed

text \<open>
  C8, as amended. For one index, match index and text, the score with the basename flag
  is at least the score without it, and strictly greater whenever it is above the floor
  of 0.1.
\<close>

theorem basename_scores_higher:
  "calculateScore this idx mi t False \<le> calculateScore this idx mi t True \<and>
   (0.1 < calculateScore this idx mi t True \<longrightarrow>
      calculateScore this idx mi t False < calculateScore this idx mi t True)"
  unfolding calculateScore_spec_score
  using spec_score_basename spec_score_basename_strict by blast

theorem basename_scores_higher_witness:
  "0.1 < calculateScore \<lparr>query = js ''abc''\<rparr> (js ''abct'') 0 (js ''apple-banana-cherry.txt'') True \<and>
   calculateScore \<lparr>query = js ''abc''\<rparr> (js ''abct'') 0 (js ''apple-banana-cherry.txt'') False
     < calculateScore \<lparr>query = js ''abc''\<rparr> (js ''abct'') 0 (js ''apple-banana-cherry.txt'') True"
proof -
  have f: "0.1 < calculateScore \<lparr>query = js ''abc''\<rparr> (js ''abct'') 0 (js ''apple-banana-cherry.txt'') True"
    by code_simp
  from basename_scores_higher [of "\<lparr>query = js ''abc''\<rparr>" "js ''abct''" 0 "js ''apple-banana-cherry.txt''"]
    f show ?thesis by blast
qed

text \<open>
  Without the condition on the floor the statement fails on a long text. On the text of
  403 characters below the
  search matches at index 0 and scores the floor with the flag and without it.
\<close>

theorem basename_scores_higher_counterexample:
  "searchText \<lparr>query = js ''a''\<rparr> (Some (js ''a-a'' @ replicate 400 (Latin1 CHR ''b''))) True =
     Inr \<lparr>match = Some \<lparr>SearchResult.score = 0.1, matches = [(0, 1)]\<rparr>, score = 0.1\<rparr> \<and>
   searchText \<lparr>query = js ''a''\<rparr> (Some (js ''a-a'' @ replicate 400 (Latin1 CHR ''b''))) False =
     Inr \<lparr>match = Some \<lparr>SearchResult.score = 0.1, matches = [(0, 1)]\<rparr>, score = 0.1\<rparr> \<and>
   createSearchableString (extractWords (Some (js ''a-a'' @ replicate 400 (Latin1 CHR ''b'')))) = Inr (js ''aa'') \<and>
   indexOf (js ''aa'') (js ''a'') = 0 \<and>
   \<not> calculateScore \<lparr>query = js ''a''\<rparr> (js ''aa'') 0 (js ''a-a'' @ replicate 400 (Latin1 CHR ''b'')) False
      < calculateScore \<lparr>query = js ''a''\<rparr> (js ''aa'') 0 (js ''a-a'' @ replicate 400 (Latin1 CHR ''b'')) True"
proof -
  have "indexOf (js ''aa'') (js ''a'') = 0" by (simp add: indexOf_def js_def)
  moreover have "\<not> calculateScore \<lparr>query = js ''a''\<rparr> (js ''aa'') 0 (js ''a-a'' @ replicate 400 (Latin1 CHR ''b'')) False
      < calculateScore \<lparr>query = js ''a''\<rparr> (js ''aa'') 0 (js ''a-a'' @ replicate 400 (Latin1 CHR ''b'')) True"
    by (simp add: calculateScore_spec_score spec_score_def long_text_not_md)
  ultimately show ?thesis
    using long_text_search [of True] long_text_search [of False] long_text_index [of 400]
    by blast
qed

subsection \<open>Matching\<close>

text \<open>
  For a non-empty query and a non-empty text, \<open>searchText\<close> returns a result, and
  the result is a match exactly when the query occurs in the initials index of the
  segmented words as a contiguous run; without an occurrence \<open>indexOf\<close> gives -1 and
  the result is no match with score 0. With a match, the match index is the position of
  the leftmost occurrence in the index.
\<close>

lemma match_iff_contiguous_initials:
  assumes "query this \<noteq> []" and "t \<noteq> []"
  shows "\<exists>r idx. searchText this (Some t) b = Inr r \<and>
      createSearchableString (extractWords (Some t)) = Inr idx \<and>
      (match r \<noteq> None \<longleftrightarrow> (\<exists>i. occurs_at (query this) idx i)) \<and>
      (match r = None \<longleftrightarrow> indexOf idx (query this) = - 1) \<and>
      (match r = None \<longrightarrow> score r = 0) \<and>
      (match r \<noteq> None \<longrightarrow>
         0 \<le> indexOf idx (query this) \<and>
         occurs_at (query this) idx (nat (indexOf idx (query this))) \<and>
         (\<forall>j < nat (indexOf idx (query this)). \<not> occurs_at (query this) idx j))"
proof -
  let ?ws = "extractWords (Some t)"
  obtain idx where idx: "createSearchableString ?ws = Inr idx"
    using createSearchableString_extractWords by blast
  show ?thesis
  proof (cases "indexOf idx (query this) = - 1")
    case True
    then have "searchText this (Some t) b = Inr \<lparr>match = None, score = 0\<rparr>"
      using idx by (simp add: searchText_absent_eval)
    moreover have "\<not> (\<exists>i. occurs_at (query this) idx i)"
      using True indexOf_absent by blast
    ultimately show ?thesis using idx True by auto
  next
    case False
    let ?k = "nat (indexOf idx (query this))"
    from indexOf_present [OF False] have
      ge: "0 \<le> indexOf idx (query this)" and
      occ: "occurs_at (query this) idx ?k" and
      least: "\<forall>j < ?k. \<not> occurs_at (query this) idx j"
      by blast+
    obtain r where r: "searchText this (Some t) b = Inr r" "match r \<noteq> None"
      using searchText_match_eval [OF assms(2,1) refl idx refl False refl refl] by auto
    have "\<exists>i. occurs_at (query this) idx i" using occ by blast
    with r idx False ge occ least show ?thesis by auto
  qed
qed

text \<open>
  When no word begins with U+0130, the match index is a word index: the matched words
  exist, and character \<open>j\<close> of the query is the lower-cased first character of the
  word at the match index plus \<open>j\<close>.
\<close>

lemma match_index_is_word_index:
  assumes "\<forall>w\<in>set (extractWords tx). w ! 0 \<noteq> U0130"
    and "createSearchableString (extractWords tx) = Inr idx"
    and "indexOf idx q \<noteq> - 1"
  shows "nat (indexOf idx q) + length q \<le> length (extractWords tx)"
    and "\<forall>j < length q. [q ! j] = toLowerCase [extractWords tx ! (nat (indexOf idx q) + j) ! 0]"
proof -
  let ?k = "nat (indexOf idx q)"
  from indexOf_present [OF assms(3)] have occ: "occurs_at q idx ?k" by blast
  have len: "length idx = length (extractWords tx)"
    using initials_index_length [OF assms(1,2)] by blast
  with occ show le: "?k + length q \<le> length (extractWords tx)"
    by (simp add: occurs_at_def)
  show "\<forall>j < length q. [q ! j] = toLowerCase [extractWords tx ! (?k + j) ! 0]"
  proof (intro allI impI)
    fix j assume j: "j < length q"
    then have "q ! j = idx ! (?k + j)" using occ occurs_at_nth by blast
    moreover have "?k + j < length idx" using j le len by simp
    ultimately show "[q ! j] = toLowerCase [extractWords tx ! (?k + j) ! 0]"
      using initials_index_length(2) [OF assms(1,2)] by simp
  qed
qed

text \<open>
  C1. By the specification a match exists exactly when the query occurs in the initials
  index as a contiguous run, and its match index is the word index of the first
  character of the leftmost occurrence. The code
  breaks this on a word that begins with U+0130, which puts two code units into the
  index: on the text below, of the two words at the indexes 0 and 1, the query \<open>m\<close>
  is found at the match index 2, and the result is a match.
\<close>

theorem match_index_dotted_I:
  "extractWords (Some (U0130 # js ''stanbul.md'')) = [U0130 # js ''stanbul'', js ''md''] \<and>
   indexOf [Latin1 CHR ''i'', U0307, Latin1 CHR ''m''] (js ''m'') = 2 \<and>
   searchText \<lparr>query = js ''m''\<rparr> (Some (U0130 # js ''stanbul.md'')) False =
     Inr \<lparr>match = Some \<lparr>SearchResult.score = 59 / 30, matches = []\<rparr>, score = 59 / 30\<rparr> \<and>
   \<not> 2 < length (extractWords (Some (U0130 # js ''stanbul.md'')))"
proof -
  have w: "extractWords (Some (U0130 # js ''stanbul.md'')) = [U0130 # js ''stanbul'', js ''md'']"
    by code_simp
  have k: "indexOf [Latin1 CHR ''i'', U0307, Latin1 CHR ''m''] (js ''m'') = 2"
    by code_simp
  have "searchText \<lparr>query = js ''m''\<rparr> (Some (U0130 # js ''stanbul.md'')) False =
     Inr \<lparr>match = Some \<lparr>SearchResult.score = 59 / 30, matches = []\<rparr>, score = 59 / 30\<rparr>"
  proof (rule searchText_match_eval)
    show "extractWords (Some (U0130 # js ''stanbul.md'')) = [U0130 # js ''stanbul'', js ''md'']"
      by (rule w)
    show "createSearchableString [U0130 # js ''stanbul'', js ''md''] =
        Inr [Latin1 CHR ''i'', U0307, Latin1 CHR ''m'']"
      by code_simp
    show "indexOf [Latin1 CHR ''i'', U0307, Latin1 CHR ''m''] (query \<lparr>query = js ''m''\<rparr>) = 2"
      using k by simp
    show "calculateScore \<lparr>query = js ''m''\<rparr> [Latin1 CHR ''i'', U0307, Latin1 CHR ''m''] 2
        (U0130 # js ''stanbul.md'') False = 59 / 30"
      by code_simp
    show "span_loop [U0130 # js ''stanbul'', js ''md''] 2 (length (query \<lparr>query = js ''m''\<rparr>))
        0 0 0 [] = []"
      by code_simp
  qed simp_all
  with w k show ?thesis by simp
qed

subsection \<open>Segmentation\<close>

text \<open>
  C2, as amended. The words extracted from a text are the words of the segmentation
  with the ASCII letters and digits: the extension is what follows the last dot, split
  off only when the text has a dot; the stem is cut at runs of white space, hyphens,
  underscores and dots, empty fragments dropped; every fragment is cut, without losing a
  character, between a letter of a-z and a letter of A-Z, between a letter of a-z or A-Z
  and a digit of 0-9, and between such a digit and such a letter; a non-empty extension
  is the last word, uncut. No word of the result is empty, and a null text has no words.
\<close>

theorem extractWords_is_ascii_segment:
  "extractWords (Some t) = ascii_segment t \<and> [] \<notin> set (extractWords (Some t)) \<and>
   extractWords None = []"
  using extractWords_ascii_segment [of t] extractWords_no_empty [of "Some t"]
  by (simp add: extractWords_def)

theorem extractWords_is_ascii_segment_witness:
  "extractWords (Some (js ''get-UserStatus2x__v3.tar.gz'')) =
     ascii_segment (js ''get-UserStatus2x__v3.tar.gz'') \<and>
   spec_stem (js ''get-UserStatus2x__v3.tar.gz'') = js ''get-UserStatus2x__v3.tar'' \<and>
   spec_extension (js ''get-UserStatus2x__v3.tar.gz'') = js ''gz'' \<and>
   ascii_segment (js ''get-UserStatus2x__v3.tar.gz'') =
     map js [''get'', ''User'', ''Status'', ''2'', ''x'', ''v'', ''3'', ''tar'', ''gz'']"
proof -
  have "spec_stem (js ''get-UserStatus2x__v3.tar.gz'') = js ''get-UserStatus2x__v3.tar''"
    and "spec_extension (js ''get-UserStatus2x__v3.tar.gz'') = js ''gz''"
    and "ascii_segment (js ''get-UserStatus2x__v3.tar.gz'') =
     map js [''get'', ''User'', ''Status'', ''2'', ''x'', ''v'', ''3'', ''tar'', ''gz'']"
    by code_simp+
  with extractWords_is_ascii_segment [of "js ''get-UserStatus2x__v3.tar.gz''"]
  show ?thesis by blast
qed

text \<open>
  With the letters of the specification the statement fails: the code makes no cut
  between the lower-case letter U+00E9 and the upper-case letter B of the first text
  below, nor between the lower-case letter a and the upper-case letter U+00C9 of the
  second, where the segmentation of the specification cuts.
\<close>

theorem extractWords_is_segment_counterexample:
  "extractWords (Some (js ''caf'' @ Latin1 (CHR 0xE9) # js ''Bar'')) =
     [js ''caf'' @ Latin1 (CHR 0xE9) # js ''Bar''] \<and>
   segment (js ''caf'' @ Latin1 (CHR 0xE9) # js ''Bar'') =
     [js ''caf'' @ [Latin1 (CHR 0xE9)], js ''Bar''] \<and>
   extractWords (Some (js ''caf'' @ Latin1 (CHR 0xE9) # js ''Bar'')) \<noteq>
     segment (js ''caf'' @ Latin1 (CHR 0xE9) # js ''Bar'') \<and>
   extractWords (Some (js ''a'' @ Latin1 (CHR 0xC9) # js ''b'')) =
     [js ''a'' @ Latin1 (CHR 0xC9) # js ''b''] \<and>
   segment (js ''a'' @ Latin1 (CHR 0xC9) # js ''b'') = [js ''a'', Latin1 (CHR 0xC9) # js ''b'']"
  by code_simp

subsection \<open>Highlighted positions\<close>

text \<open>
  When no word begins with U+0130, a match carries one span for each word index from
  the match index up to the match index plus the length of the query, in order; the span
  of word \<open>j\<close> is the one character at the running offset of that word, the sum of the
  lengths of the words before it plus one for each boundary before it. There are as many
  spans as the query has characters, so the list of spans is not empty.
\<close>

lemma spans_of_match:
  assumes "\<forall>w\<in>set (extractWords tx). w ! 0 \<noteq> U0130"
    and "searchText this tx b = Inr r" and "match r = Some m"
  shows "\<exists>idx. createSearchableString (extractWords tx) = Inr idx \<and>
        0 \<le> indexOf idx (query this) \<and>
        nat (indexOf idx (query this)) + length (query this) \<le> length (extractWords tx) \<and>
        matches m =
          map (\<lambda>j. (charStart (extractWords tx) j, charStart (extractWords tx) j + 1))
            [nat (indexOf idx (query this)) ..<
               nat (indexOf idx (query this)) + length (query this)] \<and>
        length (matches m) = length (query this) \<and>
        matches m \<noteq> []"
proof (rule searchText_cases [of this tx b])
  assume "searchText this tx b = Inr \<lparr>match = None, score = 0\<rparr>"
  with assms(2,3) show ?thesis by auto
next
  fix t idx
  let ?k = "indexOf idx (query this)"
  assume q: "query this \<noteq> []"
    and idx: "createSearchableString (extractWords tx) = Inr idx"
    and k: "?k \<noteq> - 1"
    and eq: "searchText this tx b =
         Inr \<lparr>match = Some \<lparr>SearchResult.score = calculateScore this idx ?k t b,
                matches = span_loop (extractWords tx) ?k (length (query this)) 0 0 0 []\<rparr>,
              score = calculateScore this idx ?k t b\<rparr>"
  from assms(2,3) eq have sp:
    "matches m = span_loop (extractWords tx) ?k (length (query this)) 0 0 0 []"
    by auto
  from indexOf_present [OF k] have ge: "0 \<le> ?k" by blast
  have le: "nat ?k + length (query this) \<le> length (extractWords tx)"
    using match_index_is_word_index(1) [OF assms(1) idx k] .
  have "matches m =
      map (\<lambda>j. (charStart (extractWords tx) j, charStart (extractWords tx) j + 1))
        [nat ?k ..< nat ?k + length (query this)]"
    using span_loop_matches [OF le] ge sp by simp
  with idx ge le q show ?thesis by auto
qed

text \<open>
  C6. By the specification a match carries one span for each matched word, and so a
  list of spans that is not empty. The code breaks this on a word that begins with
  U+0130, which
  puts two code units into the index: on the text below the query \<open>m\<close> is found at the
  match index 2, the loop over the two words reaches no word index from 2 on, and the
  match carries no span.
\<close>

theorem spans_dotted_I:
  "searchText \<lparr>query = js ''m''\<rparr> (Some (U0130 # js ''stanbul.md'')) True =
     Inr \<lparr>match = Some \<lparr>SearchResult.score = 119 / 30, matches = []\<rparr>, score = 119 / 30\<rparr>"
proof (rule searchText_match_eval)
  show "extractWords (Some (U0130 # js ''stanbul.md'')) = [U0130 # js ''stanbul'', js ''md'']"
    by code_simp
  show "createSearchableString [U0130 # js ''stanbul'', js ''md''] =
      Inr [Latin1 CHR ''i'', U0307, Latin1 CHR ''m'']"
    by code_simp
  show "indexOf [Latin1 CHR ''i'', U0307, Latin1 CHR ''m''] (query \<lparr>query = js ''m''\<rparr>) = 2"
    by code_simp
  show "calculateScore \<lparr>query = js ''m''\<rparr> [Latin1 CHR ''i'', U0307, Latin1 CHR ''m''] 2
      (U0130 # js ''stanbul.md'') True = 119 / 30"
    by code_simp
  show "span_loop [U0130 # js ''stanbul'', js ''md''] 2 (length (query \<lparr>query = js ''m''\<rparr>))
      0 0 0 [] = []"
    by code_simp
qed simp_all

subsection \<open>The fallback chain\<close>

text \<open>
  C5. \<open>searchWithFallback\<close> never fails. It searches the primary text as a basename
  and returns that result when it is a match or when no path segments are given;
  otherwise it searches the basename of the segments as a basename, and after that the
  path as a non-basename, and returns the first match, or the result for the path. A
  null or empty text is no match for its attempt, and a result that is not a match is
  the no-match result with score 0: when every attempt fails, so does the chain.
\<close>

theorem fallback_chain:
  "(\<exists>r1. searchText this primaryText True = Inr r1 \<and>
      (case pathSegments of
         None \<Rightarrow> searchWithFallback this primaryText pathSegments = Inr r1
       | Some ps \<Rightarrow>
           (\<exists>r2 r3. searchText this (basename ps) True = Inr r2 \<and>
              searchText this (path ps) False = Inr r3 \<and>
              searchWithFallback this primaryText pathSegments =
                Inr (if match r1 \<noteq> None then r1 else if match r2 \<noteq> None then r2 else r3)))) \<and>
   (\<forall>b. searchText this None b = Inr \<lparr>match = None, score = 0\<rparr> \<and>
        searchText this (Some []) b = Inr \<lparr>match = None, score = 0\<rparr>) \<and>
   (\<forall>tx b r. searchText this tx b = Inr r \<and> match r = None \<longrightarrow>
        r = \<lparr>match = None, score = 0\<rparr>)"
proof -
  obtain r1 where r1: "searchText this primaryText True = Inr r1"
    using searchText_total by blast
  have chain: "case pathSegments of
         None \<Rightarrow> searchWithFallback this primaryText pathSegments = Inr r1
       | Some ps \<Rightarrow>
           (\<exists>r2 r3. searchText this (basename ps) True = Inr r2 \<and>
              searchText this (path ps) False = Inr r3 \<and>
              searchWithFallback this primaryText pathSegments =
                Inr (if match r1 \<noteq> None then r1 else if match r2 \<noteq> None then r2 else r3))"
  proof (cases pathSegments)
    case None
    then show ?thesis using r1 by (simp add: searchWithFallback_def)
  next
    case (Some ps)
    obtain r2 where r2: "searchText this (basename ps) True = Inr r2"
      using searchText_total by blast
    obtain r3 where r3: "searchText this (path ps) False = Inr r3"
      using searchText_total by blast
    show ?thesis using Some r1 r2 r3 by (simp add: searchWithFallback_def)
  qed
  have guard: "\<forall>b. searchText this None b = Inr \<lparr>match = None, score = 0\<rparr> \<and>
        searchText this (Some []) b = Inr \<lparr>match = None, score = 0\<rparr>"
    by (simp add: searchText_def)
  have nomatch: "r = \<lparr>match = None, score = 0\<rparr>"
    if "searchText this tx b = Inr r" "match r = None" for tx b r
    by (rule searchText_cases [of this tx b]) (use that in auto)
  from r1 chain guard nomatch show ?thesis by blast
qed

theorem fallback_chain_witness:
  "searchWithFallback \<lparr>query = js ''nm''\<rparr> None
     (Some \<lparr>basename = Some [], path = Some (js ''new-map.md'')\<rparr>) =
     Inr \<lparr>match = Some \<lparr>SearchResult.score = 47 / 6, matches = [(0, 1), (4, 5)]\<rparr>,
          score = 47 / 6\<rparr>"
proof -
  let ?Q = "\<lparr>query = js ''nm''\<rparr>"
  let ?ps = "\<lparr>basename = Some [], path = Some (js ''new-map.md'')\<rparr>"
  let ?R = "\<lparr>match = Some \<lparr>SearchResult.score = 47 / 6, matches = [(0, 1), (4, 5)]\<rparr>,
          score = 47 / 6\<rparr>"
  have h: "searchText ?Q (Some (js ''new-map.md'')) False = Inr ?R"
  proof (rule searchText_match_eval)
    show "extractWords (Some (js ''new-map.md'')) = map js [''new'', ''map'', ''md'']"
      by code_simp
    show "createSearchableString (map js [''new'', ''map'', ''md'']) = Inr (js ''nmm'')"
      by code_simp
    show "indexOf (js ''nmm'') (query ?Q) = 0"
      by code_simp
    show "calculateScore ?Q (js ''nmm'') 0 (js ''new-map.md'') False = 47 / 6"
      by code_simp
    show "span_loop (map js [''new'', ''map'', ''md'']) 0 (length (query ?Q)) 0 0 0 [] =
        [(0, 1), (4, 5)]"
      by code_simp
  qed (simp_all add: js_def)
  from fallback_chain [of ?Q None "Some ?ps"] obtain r1 r2 r3 where
    r1: "searchText ?Q None True = Inr r1"
    and r2: "searchText ?Q (basename ?ps) True = Inr r2"
    and r3: "searchText ?Q (path ?ps) False = Inr r3"
    and res: "searchWithFallback ?Q None (Some ?ps) =
          Inr (if match r1 \<noteq> None then r1 else if match r2 \<noteq> None then r2 else r3)"
    and guard: "\<forall>b. searchText ?Q None b = Inr \<lparr>match = None, score = 0\<rparr> \<and>
        searchText ?Q (Some []) b = Inr \<lparr>match = None, score = 0\<rparr>"
    by auto
  from r1 guard have "match r1 = None" by auto
  moreover from r2 guard have "match r2 = None" by auto
  moreover from r3 h have "r3 = ?R" by simp
  ultimately show ?thesis using res by simp
qed

end
